theory Spec2Isabelle
  imports
    Main
    "HOL-Library.Multiset"
    "HOL-Library.Char_ord"
    "HOL-Library.List_Lexorder"
    "HOL-Library.Sublist"
begin

section \<open>JavaScript strings and values\<close>

text \<open>
  A JavaScript string is modelled as a \<^typ>\<open>string\<close>: a list of code units below 256.
  \<open>Array.prototype.join\<close> puts the separator between consecutive elements.
\<close>

fun join :: "string \<Rightarrow> string list \<Rightarrow> string" where
  "join sep [] = []"
| "join sep [x] = x"
| "join sep (x # y # ys) = x @ sep @ join sep (y # ys)"

text \<open>
  Decimal rendering of an integer-valued number, as \<open>String(n)\<close> gives it;
  \<open>digitChar\<close> is applied to numbers below 10 only.
\<close>

definition digitChar :: "nat \<Rightarrow> char" where
  "digitChar d = ''0123456789'' ! d"

fun showNat :: "nat \<Rightarrow> string" where
  "showNat n = (if n < 10 then [digitChar n] else showNat (n div 10) @ [digitChar (n mod 10)])"

declare showNat.simps [simp del]


text \<open>
  A value of a parameter object, as \<open>makeCacheKey\<close> sees it: \<open>undefined\<close>, or a value
  that has a string conversion, given by the string \<open>String(v)\<close> makes of it. A string is
  given by itself, a boolean by \<open>true\<close> or \<open>false\<close>.
\<close>

datatype param_value = Undefined | Defined string

fun String_js :: "param_value \<Rightarrow> string" where
  "String_js Undefined = ''undefined''"
| "String_js (Defined s) = s"

section \<open>lib/cache: cache keys\<close>

text \<open>
  \<open>Array.prototype.sort\<close> with a comparison function: the sort is stable, an element
  goes before another when the comparison of the two is negative, and elements that
  compare equal keep their order. \<open>sortBy\<close> is the stable insertion sort.
\<close>

fun insortBy :: "('a \<Rightarrow> 'a \<Rightarrow> int) \<Rightarrow> 'a \<Rightarrow> 'a list \<Rightarrow> 'a list" where
  "insortBy cmp x [] = [x]"
| "insortBy cmp x (y # ys) = (if cmp x y \<le> 0 then x # y # ys else y # insortBy cmp x ys)"

definition sortBy :: "('a \<Rightarrow> 'a \<Rightarrow> int) \<Rightarrow> 'a list \<Rightarrow> 'a list" where
  "sortBy cmp xs = foldr (insortBy cmp) xs []"

text \<open>
  \<open>makeCacheKey(prefix, params)\<close>. The parameter object is the list of its entries in
  \<open>Object.entries\<close> order; an object has every key once. The entries whose value is
  \<open>undefined\<close> are dropped, the rest is sorted by \<open>a.localeCompare(b)\<close> on the keys,
  rendered as \<open>k=String(v)\<close> and joined with commas. \<open>localeCompare\<close> is the
  runtime's collation: a parameter.
\<close>

definition makeCacheKey ::
  "(string \<Rightarrow> string \<Rightarrow> int) \<Rightarrow> string \<Rightarrow> (string \<times> param_value) list \<Rightarrow> string" where
  "makeCacheKey localeCompare pfx params =
     (let parts = map (\<lambda>(k, v). k @ ''='' @ String_js v)
                    (sortBy (\<lambda>(a, _) (b, _). localeCompare a b)
                       (filter (\<lambda>(k, v). v \<noteq> Undefined) params))
      in pfx @ '':'' @ join '','' parts)"

text \<open>
  What the theorems ask of a comparison: it is consistent (any two names are comparable,
  and the comparison is transitive), and on the names at hand no two different names
  compare equal.
\<close>

definition consistentCompare :: "(string \<Rightarrow> string \<Rightarrow> int) \<Rightarrow> bool" where
  "consistentCompare cmp =
     ((\<forall>a b. cmp a b \<le> 0 \<or> cmp b a \<le> 0)
      \<and> (\<forall>a b c. cmp a b \<le> 0 \<and> cmp b c \<le> 0 \<longrightarrow> cmp a c \<le> 0))"

definition noTies :: "(string \<Rightarrow> string \<Rightarrow> int) \<Rightarrow> string list \<Rightarrow> bool" where
  "noTies cmp names =
     (\<forall>a \<in> set names. \<forall>b \<in> set names. cmp a b \<le> 0 \<and> cmp b a \<le> 0 \<longrightarrow> a = b)"

text \<open>
  Two comparisons for the examples. \<open>codeUnitCompare\<close> compares code unit by code unit.
  The runtime's collation takes the soft hyphen (U+00AD) for ignorable, so that
  \<open>'a'.localeCompare('a\u00AD')\<close> is \<open>0\<close>; \<open>softHyphenCompare\<close> is the comparison by
  code units of the names without their soft hyphens, which agrees with it on these two
  names.
\<close>

definition codeUnitCompare :: "string \<Rightarrow> string \<Rightarrow> int" where
  "codeUnitCompare a b = (if a < b then - 1 else if a = b then 0 else 1)"

definition softHyphen :: char where
  "softHyphen = CHR 0xAD"

definition softHyphenCompare :: "string \<Rightarrow> string \<Rightarrow> int" where
  "softHyphenCompare a b =
     codeUnitCompare (filter (\<lambda>c. c \<noteq> softHyphen) a) (filter (\<lambda>c. c \<noteq> softHyphen) b)"

section \<open>lib/cache: the time-bounded store\<close>

text \<open>
  A value thrown by JavaScript code: an \<open>Error\<close> object with its \<open>message\<close>, or any
  other value, kept as its \<open>String(v)\<close> rendering. A computation that may throw
  returns \<open>Inl\<close> of the thrown value.
\<close>

datatype js_error = JsError string | JsThrown string

text \<open>
  \<open>CacheEntry<T>\<close>. A stored value of type \<open>T\<close> may itself be \<open>undefined\<close>, which
  is \<open>None\<close> here; \<open>T | undefined\<close> is an option as well.
\<close>

record 'v cache_entry =
  entry_value :: "'v option"
  expiresAt :: int

text \<open>
  What the cache functions read and write: the module-level \<open>store\<close>, the clock behind
  \<open>Date.now()\<close>, and the rest of the program's state.
\<close>

record ('v, 'x) world =
  store :: "string \<rightharpoonup> 'v cache_entry"
  now :: int
  ext :: 'x

definition cacheGet :: "string \<Rightarrow> ('v, 'x) world \<Rightarrow> 'v option \<times> ('v, 'x) world" where
  "cacheGet key w =
     (case store w key of
        None \<Rightarrow> (None, w)
      | Some entry \<Rightarrow>
          if now w > expiresAt entry
          then (None, w\<lparr>store := (store w)(key := None)\<rparr>)
          else (entry_value entry, w))"

definition cacheSet :: "string \<Rightarrow> 'v option \<Rightarrow> int \<Rightarrow> ('v, 'x) world \<Rightarrow> ('v, 'x) world" where
  "cacheSet key v ttlMs w =
     w\<lparr>store := (store w)(key \<mapsto> \<lparr>entry_value = v, expiresAt = now w + ttlMs\<rparr>)\<rparr>"

text \<open>
  \<open>cacheGetOrSet\<close>: the producer \<open>fn\<close> is any computation on the state; awaiting a
  rejected promise throws the value it was rejected with (\<open>Inl\<close>), and then nothing is
  stored.
\<close>

definition cacheGetOrSet ::
  "string \<Rightarrow> (('v, 'x) world \<Rightarrow> ('e + 'v option) \<times> ('v, 'x) world) \<Rightarrow> int
     \<Rightarrow> ('v, 'x) world \<Rightarrow> ('e + 'v option) \<times> ('v, 'x) world" where
  "cacheGetOrSet key fn ttlMs w =
     (case cacheGet key w of
        (cached, w1) \<Rightarrow>
          if cached \<noteq> None then (Inr cached, w1)
          else (case fn w1 of
                  (Inl err, w2) \<Rightarrow> (Inl err, w2)
                | (Inr v, w2) \<Rightarrow> (Inr v, cacheSet key v ttlMs w2)))"

text \<open>
  Counting invocations, as the repository's tests do with \<open>called++\<close>: \<open>counted fn\<close>
  runs \<open>fn\<close> on the state without the counter and adds one to the counter.
\<close>

definition calls :: "('v, nat \<times> 'x) world \<Rightarrow> nat" where
  "calls w = fst (ext w)"

definition counted ::
  "(('v, 'x) world \<Rightarrow> 'r \<times> ('v, 'x) world) \<Rightarrow> ('v, nat \<times> 'x) world \<Rightarrow> 'r \<times> ('v, nat \<times> 'x) world" where
  "counted fn w =
     (case fn \<lparr>store = store w, now = now w, ext = snd (ext w)\<rparr> of
        (r, w') \<Rightarrow> (r, \<lparr>store = store w', now = now w', ext = (Suc (fst (ext w)), ext w')\<rparr>))"

text \<open>
  A store holding, under the key \<open>k\<close>, an entry that is not expired at time 0 and
  whose value is \<open>undefined\<close>; and a producer that returns 42.
\<close>

definition undefinedEntryWorld :: "(nat, nat \<times> unit) world" where
  "undefinedEntryWorld =
     \<lparr>store = [''k'' \<mapsto> \<lparr>entry_value = None, expiresAt = 60000\<rparr>], now = 0, ext = (0, ())\<rparr>"

definition produce42 :: "(nat, unit) world \<Rightarrow> (js_error + nat option) \<times> (nat, unit) world" where
  "produce42 w = (Inr (Some 42), w)"

section \<open>commands/samples: records and deduplication\<close>

text \<open>
  \<open>ParsedSampleCode\<close>, each field with the prefix \<open>sample_\<close>. Optional fields are
  options; \<open>depth\<close> is an integer-valued number.
\<close>

record ParsedSampleCode =
  sample_title :: string
  sample_framework :: "string option"
  sample_description :: "string option"
  sample_beta :: bool
  sample_featured :: bool
  sample_url :: string
  sample_path :: string
  sample_depth :: int

text \<open>
  JavaScript's \<open>a || b\<close> on optional strings: \<open>undefined\<close> and the empty string are
  falsy.
\<close>

definition truthy :: "string option \<Rightarrow> bool" where
  "truthy a = (case a of None \<Rightarrow> False | Some s \<Rightarrow> s \<noteq> [])"

definition orElse :: "string option \<Rightarrow> string option \<Rightarrow> string option" where
  "orElse a b = (if truthy a then a else b)"

text \<open>
  A JavaScript \<open>Map\<close> keeps its keys in insertion order: \<open>set\<close> on a key that is present
  replaces the value in place, on a new key it appends.
\<close>

fun mapSet :: "'k \<Rightarrow> 'v \<Rightarrow> ('k \<times> 'v) list \<Rightarrow> ('k \<times> 'v) list" where
  "mapSet k v [] = [(k, v)]"
| "mapSet k v ((k', v') # rest) =
     (if k' = k then (k, v) # rest else (k', v') # mapSet k v rest)"

definition mapGet :: "('k \<times> 'v) list \<Rightarrow> 'k \<Rightarrow> 'v option" where
  "mapGet m k = map_of m k"

text \<open>The record written over an existing one in the deduplication loop of \<open>getSampleCode\<close>.\<close>

definition mergeSample :: "ParsedSampleCode \<Rightarrow> ParsedSampleCode \<Rightarrow> ParsedSampleCode" where
  "mergeSample existing code =
     existing\<lparr>sample_framework := orElse (sample_framework code) (sample_framework existing),
              sample_featured := (sample_featured code \<or> sample_featured existing),
              sample_beta := (sample_beta code \<or> sample_beta existing),
              sample_depth := min (sample_depth code) (sample_depth existing)\<rparr>"

definition dedupStep ::
  "(string \<times> ParsedSampleCode) list \<Rightarrow> ParsedSampleCode \<Rightarrow> (string \<times> ParsedSampleCode) list" where
  "dedupStep uniqueMap code =
     (case mapGet uniqueMap (sample_path code) of
        None \<Rightarrow> mapSet (sample_path code) code uniqueMap
      | Some existing \<Rightarrow> mapSet (sample_path code) (mergeSample existing code) uniqueMap)"

definition deduplicate :: "ParsedSampleCode list \<Rightarrow> ParsedSampleCode list" where
  "deduplicate sampleCodes = map snd (foldl dedupStep [] sampleCodes)"

text \<open>Two records for one path, as two per-language subtrees of the index yield them.\<close>

definition sampleFirst :: ParsedSampleCode where
  "sampleFirst =
     \<lparr>sample_title = ''Landmarks'', sample_framework = None, sample_description = None, sample_beta = False,
      sample_featured = False, sample_url = ''https://developer.apple.com/documentation/swiftui/landmarks'',
      sample_path = ''/documentation/swiftui/landmarks'', sample_depth = 3\<rparr>"

definition sampleSecond :: ParsedSampleCode where
  "sampleSecond =
     \<lparr>sample_title = ''Landmarks'', sample_framework = Some ''SwiftUI'', sample_description = None, sample_beta = True,
      sample_featured = True, sample_url = ''https://developer.apple.com/documentation/swiftui/landmarks'',
      sample_path = ''/documentation/swiftui/landmarks'', sample_depth = 1\<rparr>"

section \<open>commands/symbols: wildcard patterns\<close>

text \<open>\<open>String.prototype.split\<close> with a one-character separator.\<close>

fun splitOn :: "char \<Rightarrow> string \<Rightarrow> string list" where
  "splitOn sep [] = [[]]"
| "splitOn sep (c # cs) =
     (if c = sep then [] # splitOn sep cs
      else (case splitOn sep cs of
              [] \<Rightarrow> [[c]]
            | part # parts \<Rightarrow> (c # part) # parts))"

text \<open>
  The fourteen characters of the character class in \<open>matchesPattern\<close>; these are all
  the syntax characters of an ECMAScript pattern. \<open>escapeRegExp\<close> is the \<open>replace\<close>
  call of \<open>matchesPattern\<close>: it puts a backslash before each of them.
\<close>

definition backslash :: char where
  "backslash = CHR 0x5C"

definition syntaxChars :: "char list" where
  "syntaxChars =
     [CHR ''.'', CHR ''*'', CHR ''+'', CHR ''?'', CHR ''^'', CHR ''$'', CHR ''{'', CHR ''}'',
      CHR ''('', CHR '')'', CHR ''|'', CHR ''['', CHR '']'', backslash]"

definition isSyntaxChar :: "char \<Rightarrow> bool" where
  "isSyntaxChar c = (c \<in> set syntaxChars)"

fun escapeRegExp :: "string \<Rightarrow> string" where
  "escapeRegExp [] = []"
| "escapeRegExp (c # cs) =
     (if isSyntaxChar c then backslash # c # escapeRegExp cs else c # escapeRegExp cs)"

text \<open>
  \<open>RegExp\<close> is the runtime's. The patterns built by \<open>matchesPattern\<close> lie in this
  fragment of the ECMAScript pattern language: the assertions \<open>^\<close> and \<open>$\<close>, a
  backslash followed by a syntax character (that character, literally), \<open>.*\<close> (a
  greedy run of characters other than line terminators, since the \<open>s\<close> flag is not
  set), and any other character (itself). \<open>rx_parse\<close> returns \<open>None\<close> on a pattern
  outside the fragment.
\<close>

datatype rx_atom = Bol | Eol | Lit char | AnyRun

fun rx_parse :: "string \<Rightarrow> rx_atom list option" where
  "rx_parse [] = Some []"
| "rx_parse [c] =
     (if c = CHR ''^'' then Some [Bol]
      else if c = CHR ''$'' then Some [Eol]
      else if isSyntaxChar c then None
      else Some [Lit c])"
| "rx_parse (c # d # cs) =
     (if c = backslash then
        (if isSyntaxChar d then map_option (Cons (Lit d)) (rx_parse cs) else None)
      else if c = CHR ''.'' then
        (if d = CHR ''*'' then map_option (Cons AnyRun) (rx_parse cs) else None)
      else if c = CHR ''^'' then map_option (Cons Bol) (rx_parse (d # cs))
      else if c = CHR ''$'' then map_option (Cons Eol) (rx_parse (d # cs))
      else if isSyntaxChar c then None
      else map_option (Cons (Lit c)) (rx_parse (d # cs)))"

text \<open>
  Line terminators among the code units below 256, and the canonical form of a code unit
  under the \<open>i\<close> flag (the upper-case letter, for the letters with an upper case below
  256).
\<close>

definition isLineTerminator :: "char \<Rightarrow> bool" where
  "isLineTerminator c = (c = CHR 0x0A \<or> c = CHR 0x0D)"

definition canonicalize :: "char \<Rightarrow> char" where
  "canonicalize c =
     (let n = of_char c :: nat
      in if (97 \<le> n \<and> n \<le> 122) \<or> (224 \<le> n \<and> n \<le> 254 \<and> n \<noteq> 247)
         then char_of (n - 32) else c)"

text \<open>
  Matching a parsed pattern at one position of the input, by backtracking;
  \<open>atStart\<close> says whether the position is the start of the input.
\<close>

fun rx_match :: "rx_atom list \<Rightarrow> bool \<Rightarrow> string \<Rightarrow> bool" where
  "rx_match [] atStart s = True"
| "rx_match (Bol # atoms) atStart s = (atStart \<and> rx_match atoms atStart s)"
| "rx_match (Eol # atoms) atStart s = (s = [] \<and> rx_match atoms atStart s)"
| "rx_match (Lit c # atoms) atStart [] = False"
| "rx_match (Lit c # atoms) atStart (x # xs) =
     (canonicalize x = canonicalize c \<and> rx_match atoms False xs)"
| "rx_match (AnyRun # atoms) atStart [] = rx_match atoms atStart []"
| "rx_match (AnyRun # atoms) atStart (x # xs) =
     ((\<not> isLineTerminator x \<and> rx_match (AnyRun # atoms) False xs)
      \<or> rx_match atoms atStart (x # xs))"

text \<open>
  \<open>new RegExp(source, 'i').test(name)\<close>: a match starting at some position of the
  input. \<open>None\<close> stands for a pattern outside the fragment.
\<close>

definition regExpTest :: "string \<Rightarrow> string \<Rightarrow> bool option" where
  "regExpTest source name =
     map_option
       (\<lambda>atoms. list_ex (\<lambda>i. rx_match atoms (i = 0) (drop i name)) [0..<Suc (length name)])
       (rx_parse source)"

definition regexPattern :: "string \<Rightarrow> string" where
  "regexPattern pattern = join ''.*'' (map escapeRegExp (splitOn CHR ''*'' pattern))"

definition matchesPattern :: "string \<Rightarrow> string \<Rightarrow> bool" where
  "matchesPattern name pattern =
     (case regExpTest (''^'' @ regexPattern pattern @ ''$'') name of
        Some b \<Rightarrow> b
      | None \<Rightarrow> False)"

text \<open>The atoms that the pattern built from the parts of a wildcard pattern parses to.\<close>

fun atomsOf :: "string list \<Rightarrow> rx_atom list" where
  "atomsOf [] = []"
| "atomsOf [p] = map Lit p"
| "atomsOf (p # q # ps) = map Lit p @ AnyRun # atomsOf (q # ps)"

text \<open>
  The wildcard semantics in the words of the specification, for comparison: the title is
  the literal parts of the pattern, compared case-insensitively, with a run of characters
  for each \<open>*\<close> between them; \<open>ok\<close> says which characters a run may hold.
\<close>

definition ci_eq :: "string \<Rightarrow> string \<Rightarrow> bool" where
  "ci_eq a b = (map canonicalize a = map canonicalize b)"

fun wildMatch :: "(char \<Rightarrow> bool) \<Rightarrow> string list \<Rightarrow> string \<Rightarrow> bool" where
  "wildMatch ok [] t = (t = [])"
| "wildMatch ok [p] t = ci_eq p t"
| "wildMatch ok (p # q # ps) t =
     (\<exists>u r v. t = u @ r @ v \<and> ci_eq p u \<and> list_all ok r \<and> wildMatch ok (q # ps) v)"

section \<open>commands/symbols: the symbol walk\<close>

text \<open>
  \<open>IndexItem\<close>. Optional fields are options; \<open>children\<close> is absent or a list of items.
\<close>

datatype IndexItem =
  IndexItem
    (item_path: string)
    (item_title: string)
    (item_type: string)
    (item_beta: "bool option")
    (item_deprecated: "bool option")
    (item_external: "bool option")
    (item_children: "IndexItem list option")

text \<open>
  \<open>findSymbolsRecursive\<close>. The array \<open>symbols\<close> is mutated by the source; here it is
  passed in and returned with the boolean result. \<open>limit\<close> is an integer-valued number.
  \<open>findSymbolsLoop\<close> is the \<open>for\<close> loop of the source over the remaining items.
\<close>

function findSymbolsRecursive ::
    "IndexItem list \<Rightarrow> string \<Rightarrow> string option \<Rightarrow> int \<Rightarrow> IndexItem list \<Rightarrow> nat
       \<Rightarrow> bool \<times> IndexItem list"
  and findSymbolsLoop ::
    "IndexItem list \<Rightarrow> string \<Rightarrow> string option \<Rightarrow> int \<Rightarrow> IndexItem list \<Rightarrow> nat
       \<Rightarrow> bool \<times> IndexItem list"
where
  "findSymbolsRecursive items symbolType namePattern limit symbols depth =
     (if depth > 6 then (False, symbols)
      else findSymbolsLoop items symbolType namePattern limit symbols depth)"
| "findSymbolsLoop [] symbolType namePattern limit symbols depth = (False, symbols)"
| "findSymbolsLoop (item # rest) symbolType namePattern limit symbols depth =
     (if int (length symbols) \<ge> limit then (True, symbols)
      else
        let symbols1 =
          (if (symbolType = ''all'' \<or> item_type item = symbolType)
              \<and> (case namePattern of
                    None \<Rightarrow> True
                  | Some pattern \<Rightarrow> pattern = [] \<or> matchesPattern (item_title item) pattern)
           then symbols @ [item] else symbols)
        in case item_children item of
             None \<Rightarrow> findSymbolsLoop rest symbolType namePattern limit symbols1 depth
           | Some children \<Rightarrow>
               if int (length symbols1) < limit then
                 (case findSymbolsRecursive children symbolType namePattern limit symbols1
                         (depth + 1) of
                    (True, symbols2) \<Rightarrow> (True, symbols2)
                  | (False, symbols2) \<Rightarrow>
                      findSymbolsLoop rest symbolType namePattern limit symbols2 depth)
               else findSymbolsLoop rest symbolType namePattern limit symbols1 depth)"
  by pat_completeness auto
termination
proof -
  have children_smaller: "size_list size children < size item"
    if "item_children item = Some children" for item :: IndexItem and children
    using that by (cases item) simp
  show ?thesis
    by (relation "measure (\<lambda>x. case x of
            Inl (items, _) \<Rightarrow> 2 * size_list size items + 1
          | Inr (items, _) \<Rightarrow> 2 * size_list size items)")
       (auto dest: children_smaller)
qed

text \<open>
  The test that \<open>findSymbolsRecursive\<close> applies to an item before pushing it.
\<close>

definition symbolFilter :: "string \<Rightarrow> string option \<Rightarrow> IndexItem \<Rightarrow> bool" where
  "symbolFilter symbolType namePattern item =
     ((symbolType = ''all'' \<or> item_type item = symbolType)
      \<and> (case namePattern of
            None \<Rightarrow> True
          | Some pattern \<Rightarrow> pattern = [] \<or> matchesPattern (item_title item) pattern))"

text \<open>
  The traversal without a limit, in the words of the specification: depth-first and
  pre-order (an item is tested before its children are visited), not descending past
  depth 6. It lists all matches in document order.
\<close>

function allMatches :: "(IndexItem \<Rightarrow> bool) \<Rightarrow> nat \<Rightarrow> IndexItem list \<Rightarrow> IndexItem list" where
  "allMatches P depth items =
     (if depth > 6 then []
      else concat (map (\<lambda>item.
             (if P item then [item] else [])
             @ (case item_children item of
                  None \<Rightarrow> []
                | Some children \<Rightarrow> allMatches P (depth + 1) children)) items))"
  by pat_completeness auto
termination
  by (relation "measure (\<lambda>(P, depth, items). 7 - depth)") auto

declare allMatches.simps [simp del]

text \<open>What one item contributes to \<open>allMatches\<close>: itself if it passes, then its subtree.\<close>

definition itemMatches :: "(IndexItem \<Rightarrow> bool) \<Rightarrow> nat \<Rightarrow> IndexItem \<Rightarrow> IndexItem list" where
  "itemMatches P depth item =
     (if P item then [item] else [])
     @ (case item_children item of None \<Rightarrow> [] | Some children \<Rightarrow> allMatches P (depth + 1) children)"

section \<open>commands/samples: the sample walk\<close>

text \<open>\<open>SampleCodeIndexNode\<close>; here \<open>path\<close> is optional.\<close>

datatype SampleCodeIndexNode =
  SampleCodeIndexNode
    (node_path: "string option")
    (node_title: string)
    (node_type: string)
    (node_children: "SampleCodeIndexNode list option")
    (node_external: "bool option")
    (node_beta: "bool option")

text \<open>
  \<open>extractFrameworkFromPath\<close>: the path starts with \<open>/documentation/\<close>, then come
  one or more characters other than \<open>/\<close>, then a \<open>/\<close>. \<open>normalizeFramework\<close> is
  defined in \<open>lib/frameworks\<close> and is a parameter here.
\<close>

definition extractFrameworkFromPath :: "(string \<Rightarrow> string) \<Rightarrow> string \<Rightarrow> string option" where
  "extractFrameworkFromPath normalizeFramework p =
     (if prefix ''/documentation/'' p then
        (let rest = drop (length ''/documentation/'') p;
             fw = takeWhile (\<lambda>c. c \<noteq> CHR ''/'') rest;
             after = dropWhile (\<lambda>c. c \<noteq> CHR ''/'') rest
         in if fw \<noteq> [] \<and> after \<noteq> [] then
              (if fw = ''samplecode'' \<or> fw = ''documentation'' then None
               else Some (normalizeFramework fw))
            else None)
      else None)"

text \<open>
  \<open>processSampleCodeNodes\<close>. The array \<open>sampleCodes\<close> is mutated by the source; here it
  is passed in and returned. The function is its \<open>for\<close> loop.
\<close>

function processSampleCodeNodes ::
  "(string \<Rightarrow> string) \<Rightarrow> SampleCodeIndexNode list \<Rightarrow> ParsedSampleCode list
     \<Rightarrow> (string \<rightharpoonup> string) \<Rightarrow> string set \<Rightarrow> string \<Rightarrow> int \<Rightarrow> ParsedSampleCode list" where
  "processSampleCodeNodes normalizeFramework [] sampleCodes frameworkMap featuredIds
     currentFramework depth = sampleCodes"
| "processSampleCodeNodes normalizeFramework (node # rest) sampleCodes frameworkMap featuredIds
     currentFramework depth =
     (let sampleCodes1 =
        (if node_type node = ''groupMarker'' then
           (let fw = normalizeFramework (node_title node)
            in case node_children node of
                 None \<Rightarrow> sampleCodes
               | Some children \<Rightarrow>
                   processSampleCodeNodes normalizeFramework children sampleCodes frameworkMap
                     featuredIds fw (depth + 1))
         else if node_type node = ''sampleCode'' \<and> truthy (node_path node) then
           (case node_path node of
              None \<Rightarrow> sampleCodes
            | Some p \<Rightarrow>
                (let fwFromPath = extractFrameworkFromPath normalizeFramework p;
                     docUrl = ''doc://com.apple.documentation'' @ p;
                     fwFromMap = frameworkMap docUrl;
                     fw = normalizeFramework
                            (case orElse fwFromPath fwFromMap of
                               None \<Rightarrow> currentFramework
                             | Some s \<Rightarrow> if s \<noteq> [] then s else currentFramework)
                 in sampleCodes @
                    [\<lparr>sample_title = node_title node,
                      sample_framework = (if fw \<noteq> [] then Some fw else None),
                      sample_description = None,
                      sample_beta = (node_beta node = Some True),
                      sample_featured = (docUrl \<in> featuredIds),
                      sample_url = ''https://developer.apple.com'' @ p,
                      sample_path = p,
                      sample_depth = depth\<rparr>]))
         else
           (case node_children node of
              None \<Rightarrow> sampleCodes
            | Some children \<Rightarrow>
                processSampleCodeNodes normalizeFramework children sampleCodes frameworkMap
                  featuredIds currentFramework (depth + 1)))
      in processSampleCodeNodes normalizeFramework rest sampleCodes1 frameworkMap featuredIds
           currentFramework depth)"
  by pat_completeness auto
termination
proof -
  have children_smaller: "size_list size children < size node"
    if "node_children node = Some children" for node :: SampleCodeIndexNode and children
    using that by (cases node) simp
  show ?thesis
    by (relation "measure (\<lambda>(nf, nodes, _). size_list size nodes)")
       (auto dest: children_smaller)
qed

text \<open>All nodes of a forest, at any depth.\<close>

function allNodes :: "SampleCodeIndexNode list \<Rightarrow> SampleCodeIndexNode list" where
  "allNodes [] = []"
| "allNodes (node # rest) =
     node # (case node_children node of None \<Rightarrow> [] | Some children \<Rightarrow> allNodes children)
       @ allNodes rest"
  by pat_completeness auto
termination
proof -
  have children_smaller: "size_list size children < size node"
    if "node_children node = Some children" for node :: SampleCodeIndexNode and children
    using that by (cases node) simp
  show ?thesis
    by (relation "measure (size_list size)") (auto dest: children_smaller)
qed

text \<open>
  A record that is the projection of a node of type \<open>sampleCode\<close> of the forest: same
  path, same title.
\<close>

definition fromSampleNode :: "SampleCodeIndexNode list \<Rightarrow> ParsedSampleCode \<Rightarrow> bool" where
  "fromSampleNode nodes r =
     (\<exists>n \<in> set (allNodes nodes).
        node_type n = ''sampleCode'' \<and> node_path n = Some (sample_path r)
        \<and> sample_title r = node_title n)"

text \<open>
  An index as the documentation service sends it: a grouping node over two symbols, then
  one more symbol; and a sample index with a grouping node over two samples.
\<close>

definition exampleIndex :: "IndexItem list" where
  "exampleIndex =
     [IndexItem [] ''Classes'' ''groupMarker'' None None None
        (Some [IndexItem ''/documentation/swiftui/a'' ''A'' ''class'' None None None None,
               IndexItem ''/documentation/swiftui/b'' ''B'' ''struct'' None None None None]),
      IndexItem ''/documentation/swiftui/c'' ''C'' ''class'' None None None None]"

definition exampleSampleIndex :: "SampleCodeIndexNode list" where
  "exampleSampleIndex =
     [SampleCodeIndexNode None ''SwiftUI'' ''groupMarker''
        (Some [SampleCodeIndexNode (Some ''/documentation/swiftui/a'') ''A'' ''sampleCode''
                 None None None,
               SampleCodeIndexNode (Some ''/documentation/b'') ''B'' ''sampleCode''
                 None None (Some True)])
        None None]"

section \<open>lib/http: fetching with retries\<close>

text \<open>\<open>String.prototype.includes\<close>: the argument occurs somewhere in the string.\<close>

fun str_includes :: "string \<Rightarrow> string \<Rightarrow> bool" where
  "str_includes [] sub = (sub = [])"
| "str_includes (c # cs) sub = (prefix sub (c # cs) \<or> str_includes cs sub)"

definition errorText :: "js_error \<Rightarrow> string" where
  "errorText e = (case e of JsError message \<Rightarrow> message | JsThrown s \<Rightarrow> s)"

text \<open>
  What one call of \<open>fetch\<close> does: it resolves to a response with a status, or it rejects
  (timeout, DNS failure, connection reset) with a thrown value.
\<close>

datatype fetch_outcome = Responded nat | Rejected js_error

text \<open>
  The \<open>try\<close> block of \<open>fetchWithRetry\<close> on one outcome: the response, or the message
  of the error that reaches the \<open>catch\<close> block (\<open>lastError.message\<close>).
\<close>

definition tryFetch :: "string \<Rightarrow> fetch_outcome \<Rightarrow> string + nat" where
  "tryFetch url outcome =
     (case outcome of
        Rejected e \<Rightarrow> Inl (errorText e)
      | Responded status \<Rightarrow>
          if status = 404 then Inl (''Not found (404): '' @ url)
          else if status \<ge> 500 then Inl (''Server error ('' @ showNat status @ ''): '' @ url)
          else if \<not> (200 \<le> status \<and> status \<le> 299) then
            Inl (''HTTP '' @ showNat status @ '': '' @ url)
          else Inr status)"

text \<open>
  The loop of \<open>fetchWithRetry\<close>, from the iteration \<open>attempt\<close> on. \<open>net i\<close> is the
  outcome of the \<open>fetch\<close> call of iteration \<open>i\<close>. The result is the response or the
  message of the error thrown, with the number of \<open>fetch\<close> calls made. The waiting
  between attempts is not modelled.
\<close>

function fetchLoop ::
  "string \<Rightarrow> nat \<Rightarrow> (nat \<Rightarrow> fetch_outcome) \<Rightarrow> nat \<Rightarrow> string option \<Rightarrow> (string + nat) \<times> nat" where
  "fetchLoop url maxRetries net attempt lastError =
     (if attempt < maxRetries then
        (case tryFetch url (net attempt) of
           Inr response \<Rightarrow> (Inr response, attempt + 1)
         | Inl message \<Rightarrow>
             if str_includes message ''404'' then (Inl message, attempt + 1)
             else fetchLoop url maxRetries net (attempt + 1) (Some message))
      else
        (Inl (case lastError of
                Some message \<Rightarrow> message
              | None \<Rightarrow> ''Failed to fetch: '' @ url),
         attempt))"
  by pat_completeness auto
termination
  by (relation "measure (\<lambda>(url, maxRetries, net, attempt, lastError). maxRetries - attempt)") auto

declare fetchLoop.simps [simp del]

definition fetchWithRetry :: "string \<Rightarrow> nat \<Rightarrow> (nat \<Rightarrow> fetch_outcome) \<Rightarrow> (string + nat) \<times> nat" where
  "fetchWithRetry url maxRetries net = fetchLoop url maxRetries net 0 None"


definition failTwiceThenOk :: "nat \<Rightarrow> fetch_outcome" where
  "failTwiceThenOk i = (if i < 2 then Responded 500 else Responded 200)"

section \<open>lib/urls\<close>








text \<open>\<open>String.prototype.replace\<close> with a string pattern: the first occurrence is replaced.\<close>

fun replaceFirst :: "string \<Rightarrow> string \<Rightarrow> string \<Rightarrow> string" where
  "replaceFirst pat rep [] = (if pat = [] then rep else [])"
| "replaceFirst pat rep (c # cs) =
     (if prefix pat (c # cs) then rep @ drop (length pat) (c # cs)
      else c # replaceFirst pat rep cs)"

text \<open>
  \<open>convertToJsonApiUrl\<close>. \<open>new URL(s)\<close> is the runtime's parser: \<open>parseUrl s\<close> is
  \<open>None\<close> where the constructor throws, else the host name and the path name.
\<close>

definition convertToJsonApiUrl ::
  "(string \<Rightarrow> (string \<times> string) option) \<Rightarrow> string \<Rightarrow> string option" where
  "convertToJsonApiUrl parseUrl webUrl =
     (let cleaned = (if suffix ''/'' webUrl then butlast webUrl else webUrl)
      in case parseUrl cleaned of
           None \<Rightarrow> None
         | Some (hostname, pathname) \<Rightarrow>
             if hostname \<noteq> ''developer.apple.com'' then None
             else if str_includes pathname ''/documentation/'' then
               Some (''https://developer.apple.com/tutorials/data/documentation/''
                     @ replaceFirst ''/documentation/'' [] pathname @ ''.json'')
             else if str_includes pathname ''/tutorials/'' then
               Some (''https://developer.apple.com/tutorials/data/''
                     @ replaceFirst ''/tutorials/'' [] pathname @ ''.json'')
             else Some webUrl)"

section \<open>Asynchronous code that may throw\<close>

text \<open>
  A thrown value, as the \<open>catch\<close> blocks of the feature modules see it. Each of them
  computes \<open>error instanceof Error ? error.message : String(error)\<close> and puts the result
  into a template string. \<open>Thrown e\<close> is a value for which this gives a text: an \<open>Error\<close>
  with its message, or another value with the string \<open>String\<close> makes of it.
  \<open>Unprintable t\<close> is a value for which this throws \<open>t\<close>: an object without a string
  conversion, as \<open>Object.create(null)\<close>, for which \<open>String\<close> throws a \<open>TypeError\<close>, or an
  object whose conversion method throws.
\<close>

datatype thrown = Thrown js_error | Unprintable thrown


text \<open>
  The feature modules run on a state that holds the cache of strings, the clock and the
  rest of the world (the network among it). A computation returns a value or the value
  thrown, and the state it leaves. \<open>bindE\<close> is sequencing (\<open>await\<close>), \<open>pureE\<close> a
  step without effect on the state, \<open>tryCatch\<close> a \<open>try\<close> block with its \<open>catch\<close>
  block, which returns a value or throws itself. \<open>catchBlock\<close> is the \<open>catch\<close> block
  of the modules, with \<open>respond\<close> what it returns from the caught error when that has a
  text.
\<close>

type_synonym ('a, 'x) io = "(string, 'x) world \<Rightarrow> (thrown + 'a) \<times> (string, 'x) world"

definition bindE :: "('a, 'x) io \<Rightarrow> ('a \<Rightarrow> ('b, 'x) io) \<Rightarrow> ('b, 'x) io" where
  "bindE m f w = (case m w of (Inl e, w') \<Rightarrow> (Inl e, w') | (Inr a, w') \<Rightarrow> f a w')"

definition pureE :: "thrown + 'a \<Rightarrow> ('a, 'x) io" where
  "pureE r w = (r, w)"

definition tryCatch :: "('a, 'x) io \<Rightarrow> (thrown \<Rightarrow> thrown + 'a) \<Rightarrow> ('a, 'x) io" where
  "tryCatch body handler w =
     (case body w of (Inl e, w') \<Rightarrow> (handler e, w') | (Inr a, w') \<Rightarrow> (Inr a, w'))"

definition catchBlock :: "(js_error \<Rightarrow> 'a) \<Rightarrow> thrown \<Rightarrow> thrown + 'a" where
  "catchBlock respond error =
     (case error of Thrown e \<Rightarrow> Inr (respond e) | Unprintable t \<Rightarrow> Inl t)"

text \<open>
  An \<open>async\<close> function whose body returns a value or, not awaited, the promise of
  another call: \<open>unawaited\<close> is that call, which does not throw where it is made, and
  \<open>asyncReturn\<close> the function, which settles as the promise that its body returned.
\<close>

definition unawaited :: "('a, 'x) io \<Rightarrow> (thrown + 'a, 'x) io" where
  "unawaited m w = (case m w of (r, w') \<Rightarrow> (Inr r, w'))"

definition asyncReturn :: "(thrown + 'a, 'x) io \<Rightarrow> ('a, 'x) io" where
  "asyncReturn body w = (case body w of (Inl e, w') \<Rightarrow> (Inl e, w') | (Inr r, w') \<Rightarrow> (r, w'))"

text \<open>A step that reads or writes the state and does not throw.\<close>

definition liftState :: "((string, 'x) world \<Rightarrow> 'a \<times> (string, 'x) world) \<Rightarrow> ('a, 'x) io" where
  "liftState f w = (case f w of (a, w') \<Rightarrow> (Inr a, w'))"

text \<open>
  \<open>Promise.all\<close> of two promises. Both computations are started, here one after the
  other; when both reject, \<open>firstRejectsFirst\<close> says whose rejection comes first and is
  the one thrown.
\<close>

definition promiseAll2 :: "('a, 'x) io \<Rightarrow> ('b, 'x) io \<Rightarrow> bool \<Rightarrow> ('a \<times> 'b, 'x) io" where
  "promiseAll2 p q firstRejectsFirst w =
     (case p w of
        (r1, w1) \<Rightarrow>
          (case q w1 of
             (r2, w2) \<Rightarrow>
               ((case r1 of
                   Inr a \<Rightarrow> (case r2 of Inr b \<Rightarrow> Inr (a, b) | Inl e2 \<Rightarrow> Inl e2)
                 | Inl e1 \<Rightarrow>
                     (case r2 of
                        Inr b \<Rightarrow> Inl e1
                      | Inl e2 \<Rightarrow> Inl (if firstRejectsFirst then e1 else e2))),
                w2)))"

text \<open>A producer of strings, as \<open>cacheGetOrSet\<close> takes it: a string is not \<open>undefined\<close>.\<close>

definition asValue :: "(string, 'x) io \<Rightarrow> (string option, 'x) io" where
  "asValue m w = (case m w of (Inl e, w') \<Rightarrow> (Inl e, w') | (Inr s, w') \<Rightarrow> (Inr (Some s), w'))"

text \<open>
  The values that the modules put into a parameter object: strings, booleans and the
  number \<open>limit\<close>, of which \<open>String(limit)\<close> is the runtime's: \<open>numberToString\<close>, a
  parameter of the modules.
\<close>

definition JString :: "string \<Rightarrow> param_value" where
  "JString s = Defined s"

definition JBool :: "bool \<Rightarrow> param_value" where
  "JBool b = Defined (if b then ''true'' else ''false'')"


definition optBool :: "bool option \<Rightarrow> param_value" where
  "optBool v = (case v of None \<Rightarrow> Undefined | Some b \<Rightarrow> JBool b)"



definition newline :: char where
  "newline = CHR 0x0A"


section \<open>The feature modules\<close>










text \<open>
  \<open>getAppleDocContent\<close>. Of the fetched document the function itself reads whether
  \<open>primaryContentSections\<close> is there, and \<open>references\<close>: absent, or the \<open>url\<close> of each
  reference, in the order of \<open>Object.values\<close>. \<open>formatDoc\<close> is the formatting of the
  document under the options; \<open>maxDepth\<close> is a finite number of references to follow, a
  natural number. The call on the reference is returned, not awaited: what it throws is
  not caught here.
\<close>

record DocOptions =
  opt_related :: "bool option"
  opt_references :: "bool option"
  opt_similar :: "bool option"
  opt_platform :: "bool option"

record AppleDocJSON =
  doc_primaryContentSections :: bool
  doc_references :: "string option list option"

definition docErrorText :: "string \<Rightarrow> js_error \<Rightarrow> string" where
  "docErrorText url error =
     ''Error: Failed to get Apple doc content: '' @ errorText error @ [newline, newline]
     @ ''Please try accessing the documentation directly at: '' @ url"

function getAppleDocContent ::
  "(string \<Rightarrow> string \<Rightarrow> int) \<Rightarrow> (string \<Rightarrow> (string \<times> string) option)
     \<Rightarrow> (string \<Rightarrow> ('p AppleDocJSON_scheme, 'x) io)
     \<Rightarrow> ('p AppleDocJSON_scheme \<Rightarrow> DocOptions \<Rightarrow> thrown + string)
     \<Rightarrow> string \<Rightarrow> DocOptions \<Rightarrow> nat \<Rightarrow> (string, 'x) io" where
  "getAppleDocContent localeCompare parseUrl fetchJson formatDoc url options maxDepth =
     asyncReturn (tryCatch
       (if \<not> str_includes url ''developer.apple.com'' then
          pureE (Inr (Inr ''Error: URL must be from developer.apple.com''))
        else
          (case (if str_includes url ''.json'' then Some url
                 else convertToJsonApiUrl parseUrl url) of
             None \<Rightarrow> pureE (Inr (Inr ''Error: Invalid Apple Developer Documentation URL''))
           | Some jsonApiUrl \<Rightarrow>
               if jsonApiUrl = [] then
                 pureE (Inr (Inr ''Error: Invalid Apple Developer Documentation URL''))
               else
                 (let cacheKey = makeCacheKey localeCompare ''doc''
                        [(''url'', JString jsonApiUrl),
                         (''related'', optBool (opt_related options)),
                         (''references'', optBool (opt_references options)),
                         (''similar'', optBool (opt_similar options)),
                         (''platform'', optBool (opt_platform options))]
                  in bindE (liftState (cacheGet cacheKey)) (\<lambda>cached.
                       if truthy cached then
                         pureE (Inr (Inr (case cached of None \<Rightarrow> [] | Some s \<Rightarrow> s)))
                       else
                         bindE (fetchJson jsonApiUrl) (\<lambda>data.
                           let render =
                                 bindE (pureE (formatDoc data options)) (\<lambda>formatted.
                                   let content = formatted @ ''---'' @ [newline, newline]
                                         @ ''[View full documentation on Apple Developer]('' @ url
                                         @ '')''
                                   in bindE (liftState (\<lambda>w. ((), cacheSet cacheKey (Some content)
                                                                 (30 * 60 * 1000) w)))
                                        (\<lambda>_. pureE (Inr (Inr content))))
                           in if \<not> doc_primaryContentSections data
                                 \<and> (case doc_references data of
                                        None \<Rightarrow> False
                                      | Some refs \<Rightarrow> refs \<noteq> [])
                                 \<and> 0 < maxDepth
                              then
                                (case doc_references data of
                                   None \<Rightarrow> render
                                 | Some refs \<Rightarrow>
                                     (case refs of
                                        [] \<Rightarrow> render
                                      | firstRef # _ \<Rightarrow>
                                          (case firstRef of
                                             None \<Rightarrow> render
                                           | Some refUrl \<Rightarrow>
                                               if refUrl = [] then render
                                               else
                                                 (case convertToJsonApiUrl parseUrl
                                                         (if prefix ''http'' refUrl then refUrl
                                                          else ''https://developer.apple.com''
                                                               @ refUrl) of
                                                    None \<Rightarrow> render
                                                  | Some refJsonUrl \<Rightarrow>
                                                      if refJsonUrl = [] then render
                                                      else unawaited
                                                             (getAppleDocContent localeCompare
                                                                parseUrl fetchJson formatDoc
                                                                refJsonUrl options
                                                                (maxDepth - 1))))))
                              else render)))))
       (catchBlock (\<lambda>error. Inr (docErrorText url error))))"
  by pat_completeness auto
termination
  by (relation "measure (\<lambda>(localeCompare, parseUrl, fetchJson, formatDoc, url, options, maxDepth).
                          maxDepth)")
     auto

declare getAppleDocContent.simps [simp del]

text \<open>
  The reference that \<open>getAppleDocContent\<close> follows from a fetched document, if it follows
  one: the JSON URL of the first reference, when the document has no primary content and
  \<open>maxDepth\<close> is positive.
\<close>

definition redirectTarget ::
  "(string \<Rightarrow> (string \<times> string) option) \<Rightarrow> 'p AppleDocJSON_scheme \<Rightarrow> nat \<Rightarrow> string option" where
  "redirectTarget parseUrl data maxDepth =
     (if \<not> doc_primaryContentSections data
         \<and> (case doc_references data of None \<Rightarrow> False | Some refs \<Rightarrow> refs \<noteq> [])
         \<and> 0 < maxDepth
      then
        (case doc_references data of
           None \<Rightarrow> None
         | Some refs \<Rightarrow>
             (case refs of
                [] \<Rightarrow> None
              | firstRef # _ \<Rightarrow>
                  (case firstRef of
                     None \<Rightarrow> None
                   | Some refUrl \<Rightarrow>
                       if refUrl = [] then None
                       else
                         (case convertToJsonApiUrl parseUrl
                                 (if prefix ''http'' refUrl then refUrl
                                  else ''https://developer.apple.com'' @ refUrl) of
                            None \<Rightarrow> None
                          | Some refJsonUrl \<Rightarrow> if refJsonUrl = [] then None else Some refJsonUrl))))
      else None)"

text \<open>
  A fetcher that records each URL it is asked for, before it does what \<open>fetchJson\<close>
  does.
\<close>

definition logged ::
  "(string \<Rightarrow> ('a, 'x) io) \<Rightarrow> string \<Rightarrow> ('a, string list \<times> 'x) io" where
  "logged fetchJson url w =
     (case fetchJson url \<lparr>store = store w, now = now w, ext = snd (ext w)\<rparr> of
        (r, w') \<Rightarrow> (r, \<lparr>store = store w', now = now w', ext = (fst (ext w) @ [url], ext w')\<rparr>))"

definition requested :: "(string, string list \<times> 'x) world \<Rightarrow> string list" where
  "requested w = fst (ext w)"

text \<open>
  For the examples: a network that is down; a fetcher that rejects with an object
  without prototype, which has no string conversion (the fetchers of \<open>lib/http\<close> do so
  when \<open>fetch\<close> rejects with an object whose \<open>toString\<close> throws such an object; the wording
  of the \<open>TypeError\<close> is the runtime's); a fetcher that answers every request with the
  given document; and the state of a fresh process at time \<open>0\<close> with nothing requested
  yet.
\<close>

definition networkDown :: "string \<Rightarrow> ('a, 'x) io" where
  "networkDown url w = (Inl (Thrown (JsError ''Unable to connect'')), w)"



definition answersWith :: "'a \<Rightarrow> string \<Rightarrow> ('a, 'x) io" where
  "answersWith document url w = (Inr document, w)"

text \<open>A document without primary content whose first reference is \<open>/documentation/b\<close>.\<close>

definition refersToB :: AppleDocJSON where
  "refersToB =
     \<lparr>doc_primaryContentSections = False, doc_references = Some [Some ''/documentation/b'']\<rparr>"

definition freshProcess :: "(string, string list \<times> unit) world" where
  "freshProcess = \<lparr>store = Map.empty, now = 0, ext = ([], ())\<rparr>"

section \<open>Cache keys: properties\<close>

lemma mset_insortBy:
  "mset (insortBy cmp x xs) = add_mset x (mset xs)"
  by (induction xs) simp_all

lemma mset_sortBy:
  "mset (sortBy cmp xs) = mset xs"
  by (induction xs) (simp_all add: sortBy_def mset_insortBy)

lemma set_insortBy:
  "set (insortBy cmp x xs) = insert x (set xs)"
  using mset_insortBy [of cmp x xs] by (metis set_mset_add_mset_insert set_mset_mset)

lemma sorted_insortBy:
  assumes total: "\<And>a b. cmp a b \<le> 0 \<or> cmp b a \<le> 0"
    and trans: "\<And>a b c. cmp a b \<le> 0 \<Longrightarrow> cmp b c \<le> 0 \<Longrightarrow> cmp a c \<le> 0"
    and "sorted_wrt (\<lambda>a b. cmp a b \<le> 0) xs"
  shows "sorted_wrt (\<lambda>a b. cmp a b \<le> 0) (insortBy cmp x xs)"
  using assms(3)
proof (induction xs)
  case Nil
  then show ?case by simp
next
  case (Cons y ys)
  show ?case
  proof (cases "cmp x y \<le> 0")
    case True
    then have "\<forall>z \<in> set ys. cmp x z \<le> 0"
      using Cons.prems trans by auto
    then show ?thesis
      using True Cons.prems by simp
  next
    case False
    then have "cmp y x \<le> 0"
      using total [of x y] by simp
    then show ?thesis
      using False Cons by (simp add: set_insortBy)
  qed
qed

lemma sorted_sortBy:
  assumes "\<And>a b. cmp a b \<le> 0 \<or> cmp b a \<le> 0"
    and "\<And>a b c. cmp a b \<le> 0 \<Longrightarrow> cmp b c \<le> 0 \<Longrightarrow> cmp a c \<le> 0"
  shows "sorted_wrt (\<lambda>a b. cmp a b \<le> 0) (sortBy cmp xs)"
proof (induction xs)
  case Nil
  then show ?case by (simp add: sortBy_def)
next
  case (Cons x xs)
  have "sortBy cmp (x # xs) = insortBy cmp x (sortBy cmp xs)"
    by (simp add: sortBy_def)
  then show ?case
    using sorted_insortBy [of cmp "sortBy cmp xs" x] assms Cons by simp
qed

text \<open>
  Two sorted lists with the same elements are the same list, when no two different
  elements compare equal.
\<close>

lemma sorted_wrt_unique:
  assumes "sorted_wrt R xs" and "sorted_wrt R ys" and "mset xs = mset ys"
    and "\<And>a b. a \<in> set xs \<Longrightarrow> b \<in> set xs \<Longrightarrow> R a b \<Longrightarrow> R b a \<Longrightarrow> a = b"
  shows "xs = ys"
  using assms
proof (induction xs arbitrary: ys)
  case Nil
  then show ?case by simp
next
  case (Cons x xs)
  then obtain y ys' where ys: "ys = y # ys'"
    by (cases ys) auto
  have sets: "set (x # xs) = set ys"
    using Cons.prems(3) by (rule mset_eq_setD)
  have "x = y"
  proof (rule ccontr)
    assume neq: "x \<noteq> y"
    then have "x \<in> set ys'" and "y \<in> set xs"
      using sets ys by auto
    then have "R y x" and "R x y"
      using Cons.prems(1,2) ys by auto
    moreover have "x \<in> set (x # xs)" and "y \<in> set (x # xs)"
      using \<open>y \<in> set xs\<close> by simp_all
    ultimately show False
      using Cons.prems(4) neq by blast
  qed
  moreover have "xs = ys'"
  proof (rule Cons.IH)
    show "sorted_wrt R xs" using Cons.prems(1) by simp
    show "sorted_wrt R ys'" using Cons.prems(2) ys by simp
    show "mset xs = mset ys'" using Cons.prems(3) ys \<open>x = y\<close> by simp
    show "\<And>a b. a \<in> set xs \<Longrightarrow> b \<in> set xs \<Longrightarrow> R a b \<Longrightarrow> R b a \<Longrightarrow> a = b"
      using Cons.prems(4) by simp
  qed
  ultimately show ?case
    using ys by simp
qed

lemma distinct_map_filter_fst:
  "distinct (map fst xs) \<Longrightarrow> distinct (map fst (filter P xs))"
  by (induction xs) auto

lemma sortBy_entries:
  assumes "consistentCompare cmp"
  shows "sorted_wrt (\<lambda>(a, _) (b, _). cmp a b \<le> 0) (sortBy (\<lambda>(a, _) (b, _). cmp a b) xs)"
proof -
  have total: "\<And>a b. cmp a b \<le> 0 \<or> cmp b a \<le> 0"
    using assms unfolding consistentCompare_def by blast
  have trans: "\<And>a b c. cmp a b \<le> 0 \<Longrightarrow> cmp b c \<le> 0 \<Longrightarrow> cmp a c \<le> 0"
    using assms unfolding consistentCompare_def by blast
  have c: "(\<lambda>(a, _) (b, _). cmp a b) = (\<lambda>p q. cmp (fst p) (fst q))"
    by (simp add: fun_eq_iff split_def)
  have R: "(\<lambda>(a, _) (b, _). cmp a b \<le> 0) = (\<lambda>p q. cmp (fst p) (fst q) \<le> 0)"
    by (simp add: fun_eq_iff split_def)
  have "sorted_wrt (\<lambda>p q. cmp (fst p) (fst q) \<le> 0) (sortBy (\<lambda>p q. cmp (fst p) (fst q)) xs)"
  proof (rule sorted_sortBy [where cmp = "\<lambda>p q. cmp (fst p) (fst q)"])
    fix p q :: "string \<times> 'a"
    show "cmp (fst p) (fst q) \<le> 0 \<or> cmp (fst q) (fst p) \<le> 0"
      by (rule total)
  next
    fix p q r :: "string \<times> 'a"
    assume "cmp (fst p) (fst q) \<le> 0" and "cmp (fst q) (fst r) \<le> 0"
    then show "cmp (fst p) (fst r) \<le> 0"
      by (rule trans)
  qed
  then show ?thesis
    unfolding c R .
qed

lemma sortBy_entries_unique:
  assumes "consistentCompare cmp"
    and "distinct (map fst xs)"
    and "noTies cmp (map fst xs)"
    and "mset xs = mset ys"
  shows "sortBy (\<lambda>(a, _) (b, _). cmp a b) xs = sortBy (\<lambda>(a, _) (b, _). cmp a b) ys"
proof (rule sorted_wrt_unique)
  let ?c = "\<lambda>(a, _) (b, _). cmp a b"
  let ?R = "\<lambda>(a, _) (b, _). cmp a b \<le> 0"
  show "sorted_wrt ?R (sortBy ?c xs)" and "sorted_wrt ?R (sortBy ?c ys)"
    using assms(1) by (rule sortBy_entries)+
  show "mset (sortBy ?c xs) = mset (sortBy ?c ys)"
    using assms(4) by (simp add: mset_sortBy)
  fix p q
  assume "p \<in> set (sortBy ?c xs)" and "q \<in> set (sortBy ?c xs)" and "?R p q" and "?R q p"
  then have p: "p \<in> set xs" and q: "q \<in> set xs"
    by (metis mset_sortBy set_mset_mset)+
  then have "fst p = fst q"
    using assms(3) \<open>?R p q\<close> \<open>?R q p\<close> by (auto simp: noTies_def split_def)
  then show "p = q"
    using assms(2) p q by (meson distinct_map inj_onD)
qed

text \<open>
  Claim C5, as the code has it. The names are sorted by \<open>localeCompare\<close>, and the sort is
  stable: two names that the collation takes for equal stay in insertion order. With a
  comparison that takes the soft hyphen for ignorable, as the collation of the runtime
  does, the parameter objects \<open>{"a": "1", "a\u00AD": "2"}\<close> and
  \<open>{"a\u00AD": "2", "a": "1"}\<close>, which differ in insertion order only, get different
  keys.
\<close>

theorem makeCacheKey_insertion_order_counterexample:
  "makeCacheKey softHyphenCompare ''p''
       [(''a'', Defined ''1''), ([CHR ''a'', softHyphen], Defined ''2'')]
     = ''p:a=1,'' @ [CHR ''a'', softHyphen] @ ''=2''
   \<and> makeCacheKey softHyphenCompare ''p''
       [([CHR ''a'', softHyphen], Defined ''2''), (''a'', Defined ''1'')]
     = ''p:'' @ [CHR ''a'', softHyphen] @ ''=2,a=1''
   \<and> makeCacheKey softHyphenCompare ''p''
       [(''a'', Defined ''1''), ([CHR ''a'', softHyphen], Defined ''2'')]
     \<noteq> makeCacheKey softHyphenCompare ''p''
       [([CHR ''a'', softHyphen], Defined ''2''), (''a'', Defined ''1'')]"
  by (simp add: makeCacheKey_def sortBy_def softHyphenCompare_def codeUnitCompare_def
      softHyphen_def)

text \<open>
  Claim C5, amended. For every prefix, every consistent comparison of names and every
  parameter object no two of whose defined names compare equal: the key is the prefix, a
  colon and the comma-separated list of \<open>k=String(v)\<close> for exactly the entries whose
  value is not \<open>undefined\<close>, in the order of the comparison; so it is the same for every
  parameter object with the same defined entries, whatever the insertion order and
  whatever the entries that are \<open>undefined\<close>.
\<close>

theorem makeCacheKey_deterministic:
  assumes "consistentCompare localeCompare"
    and "distinct (map fst ps)"
    and "noTies localeCompare (map fst (filter (\<lambda>(k, v). v \<noteq> Undefined) ps))"
    and "mset (filter (\<lambda>(k, v). v \<noteq> Undefined) ps) = mset (filter (\<lambda>(k, v). v \<noteq> Undefined) qs)"
  shows "makeCacheKey localeCompare pfx ps = makeCacheKey localeCompare pfx qs
    \<and> (\<exists>entries. mset entries = mset (filter (\<lambda>(k, v). v \<noteq> Undefined) ps)
          \<and> sorted_wrt (\<lambda>(a, _) (b, _). localeCompare a b \<le> 0) entries
          \<and> makeCacheKey localeCompare pfx ps
              = pfx @ '':'' @ join '','' (map (\<lambda>(k, v). k @ ''='' @ String_js v) entries))"
proof
  have "distinct (map fst (filter (\<lambda>(k, v). v \<noteq> Undefined) ps))"
    using assms(2) by (rule distinct_map_filter_fst)
  then have "sortBy (\<lambda>(a, _) (b, _). localeCompare a b) (filter (\<lambda>(k, v). v \<noteq> Undefined) ps)
           = sortBy (\<lambda>(a, _) (b, _). localeCompare a b) (filter (\<lambda>(k, v). v \<noteq> Undefined) qs)"
    using assms(1,3,4) by (intro sortBy_entries_unique)
  then show "makeCacheKey localeCompare pfx ps = makeCacheKey localeCompare pfx qs"
    by (simp add: makeCacheKey_def)
next
  let ?entries = "sortBy (\<lambda>(a, _) (b, _). localeCompare a b) (filter (\<lambda>(k, v). v \<noteq> Undefined) ps)"
  have "mset ?entries = mset (filter (\<lambda>(k, v). v \<noteq> Undefined) ps)"
    by (rule mset_sortBy)
  moreover have "sorted_wrt (\<lambda>(a, _) (b, _). localeCompare a b \<le> 0) ?entries"
    using assms(1) by (rule sortBy_entries)
  moreover have "makeCacheKey localeCompare pfx ps
      = pfx @ '':'' @ join '','' (map (\<lambda>(k, v). k @ ''='' @ String_js v) ?entries)"
    by (simp add: makeCacheKey_def)
  ultimately show "\<exists>entries. mset entries = mset (filter (\<lambda>(k, v). v \<noteq> Undefined) ps)
          \<and> sorted_wrt (\<lambda>(a, _) (b, _). localeCompare a b \<le> 0) entries
          \<and> makeCacheKey localeCompare pfx ps
              = pfx @ '':'' @ join '','' (map (\<lambda>(k, v). k @ ''='' @ String_js v) entries)"
    by blast
qed

lemma codeUnitCompare_consistent:
  "consistentCompare codeUnitCompare"
  unfolding consistentCompare_def codeUnitCompare_def
  by (auto split: if_splits)

lemma codeUnitCompare_noTies:
  "noTies codeUnitCompare names"
  unfolding noTies_def codeUnitCompare_def
  by (auto split: if_splits)

theorem makeCacheKey_deterministic_witness:
  "makeCacheKey codeUnitCompare ''search'' [(''query'', Defined ''swift''), (''type'', Defined ''doc'')]
     = makeCacheKey codeUnitCompare ''search''
         [(''type'', Defined ''doc''), (''limit'', Undefined), (''query'', Defined ''swift'')]
   \<and> makeCacheKey codeUnitCompare ''search''
         [(''type'', Defined ''doc''), (''limit'', Undefined), (''query'', Defined ''swift'')]
     = ''search:query=swift,type=doc''"
proof -
  have "makeCacheKey codeUnitCompare ''search'' [(''query'', Defined ''swift''), (''type'', Defined ''doc'')]
     = makeCacheKey codeUnitCompare ''search''
         [(''type'', Defined ''doc''), (''limit'', Undefined), (''query'', Defined ''swift'')]"
    using makeCacheKey_deterministic [of codeUnitCompare
        "[(''query'', Defined ''swift''), (''type'', Defined ''doc'')]"
        "[(''type'', Defined ''doc''), (''limit'', Undefined), (''query'', Defined ''swift'')]"
        "''search''"]
      codeUnitCompare_consistent codeUnitCompare_noTies
    by simp
  moreover have "makeCacheKey codeUnitCompare ''search''
         [(''type'', Defined ''doc''), (''limit'', Undefined), (''query'', Defined ''swift'')]
     = ''search:query=swift,type=doc''"
    by (simp add: makeCacheKey_def sortBy_def codeUnitCompare_def)
  ultimately show ?thesis by simp
qed

text \<open>
  Claim C10. The key is not injective on parameter objects whose values are all defined,
  because the separators \<open>,\<close> and \<open>=\<close> are not escaped. Whatever the comparison,
  \<open>{a: "1,b=2"}\<close> and \<open>{"a=1,b": "2"}\<close> are different objects with the same key; and when
  the comparison puts \<open>a\<close> before \<open>b\<close>, as every collation does, \<open>{a: "1,b=2"}\<close> and
  \<open>{a: "1", b: "2"}\<close> are different objects with the same key.
\<close>

theorem makeCacheKey_not_injective:
  "(\<exists>ps qs. distinct (map fst ps) \<and> distinct (map fst qs)
      \<and> Undefined \<notin> snd ` set ps \<and> Undefined \<notin> snd ` set qs
      \<and> map_of ps \<noteq> map_of qs
      \<and> ps = [(''a'', Defined ''1,b=2'')] \<and> qs = [(''a=1,b'', Defined ''2'')]
      \<and> makeCacheKey localeCompare pfx ps = makeCacheKey localeCompare pfx qs)
   \<and> (localeCompare ''a'' ''b'' \<le> 0 \<longrightarrow>
       (\<exists>ps qs. distinct (map fst ps) \<and> distinct (map fst qs)
          \<and> Undefined \<notin> snd ` set ps \<and> Undefined \<notin> snd ` set qs
          \<and> map_of ps \<noteq> map_of qs
          \<and> ps = [(''a'', Defined ''1,b=2'')] \<and> qs = [(''a'', Defined ''1''), (''b'', Defined ''2'')]
          \<and> makeCacheKey localeCompare pfx ps = makeCacheKey localeCompare pfx qs))"
proof (intro conjI impI)
  have "map_of [(''a'', Defined ''1,b=2'')] ''a'' \<noteq> map_of [(''a=1,b'', Defined ''2'')] ''a''"
    by simp
  then have "map_of [(''a'', Defined ''1,b=2'')] \<noteq> map_of [(''a=1,b'', Defined ''2'')]"
    by metis
  moreover have "makeCacheKey localeCompare pfx [(''a'', Defined ''1,b=2'')]
      = makeCacheKey localeCompare pfx [(''a=1,b'', Defined ''2'')]"
    by (simp add: makeCacheKey_def sortBy_def)
  ultimately show "\<exists>ps qs. distinct (map fst ps) \<and> distinct (map fst qs)
      \<and> Undefined \<notin> snd ` set ps \<and> Undefined \<notin> snd ` set qs
      \<and> map_of ps \<noteq> map_of qs
      \<and> ps = [(''a'', Defined ''1,b=2'')] \<and> qs = [(''a=1,b'', Defined ''2'')]
      \<and> makeCacheKey localeCompare pfx ps = makeCacheKey localeCompare pfx qs"
    by simp
next
  assume before: "localeCompare ''a'' ''b'' \<le> 0"
  have "map_of [(''a'', Defined ''1,b=2'')] ''b'' \<noteq> map_of [(''a'', Defined ''1''), (''b'', Defined ''2'')] ''b''"
    by simp
  then have "map_of [(''a'', Defined ''1,b=2'')] \<noteq> map_of [(''a'', Defined ''1''), (''b'', Defined ''2'')]"
    by metis
  moreover have "makeCacheKey localeCompare pfx [(''a'', Defined ''1,b=2'')]
      = makeCacheKey localeCompare pfx [(''a'', Defined ''1''), (''b'', Defined ''2'')]"
    using before by (simp add: makeCacheKey_def sortBy_def)
  ultimately show "\<exists>ps qs. distinct (map fst ps) \<and> distinct (map fst qs)
      \<and> Undefined \<notin> snd ` set ps \<and> Undefined \<notin> snd ` set qs
      \<and> map_of ps \<noteq> map_of qs
      \<and> ps = [(''a'', Defined ''1,b=2'')] \<and> qs = [(''a'', Defined ''1''), (''b'', Defined ''2'')]
      \<and> makeCacheKey localeCompare pfx ps = makeCacheKey localeCompare pfx qs"
    by simp
qed

theorem makeCacheKey_not_injective_witness:
  "codeUnitCompare ''a'' ''b'' \<le> 0
   \<and> map_of [(''a'', Defined ''1,b=2'')] \<noteq> map_of [(''a'', Defined ''1''), (''b'', Defined ''2'')]
   \<and> makeCacheKey codeUnitCompare ''search'' [(''a'', Defined ''1,b=2'')]
       = makeCacheKey codeUnitCompare ''search'' [(''a'', Defined ''1''), (''b'', Defined ''2'')]"
proof -
  have before: "codeUnitCompare ''a'' ''b'' \<le> 0"
    by (simp add: codeUnitCompare_def)
  then show ?thesis
    using makeCacheKey_not_injective [of codeUnitCompare "''search''", THEN conjunct2]
    by simp
qed
section \<open>The time-bounded store: properties\<close>

lemma cacheGetOrSet_hit:
  assumes "store w key = Some e" and "\<not> now w > expiresAt e" and "entry_value e = Some v"
  shows "cacheGetOrSet key fn ttl w = (Inr (Some v), w)"
  using assms by (simp add: cacheGetOrSet_def cacheGet_def)

lemma cacheGet_miss:
  assumes "store w key = None
    \<or> (\<exists>e. store w key = Some e \<and> (now w > expiresAt e \<or> entry_value e = None))"
  shows "fst (cacheGet key w) = None"
  using assms by (auto simp: cacheGet_def)

lemma cacheGetOrSet_miss:
  assumes "fst (cacheGet key w) = None"
  shows "cacheGetOrSet key fn ttl w =
           (case fn (snd (cacheGet key w)) of
              (Inl err, w2) \<Rightarrow> (Inl err, w2)
            | (Inr v, w2) \<Rightarrow> (Inr v, cacheSet key v ttl w2))"
  using assms by (cases "cacheGet key w") (simp add: cacheGetOrSet_def)

lemma calls_counted: "calls (snd (counted fn w)) = Suc (calls w)"
  by (simp add: counted_def calls_def split: prod.splits)

lemma calls_cacheSet: "calls (cacheSet key v ttl w) = calls w"
  by (simp add: cacheSet_def calls_def)

lemma calls_cacheGet: "calls (snd (cacheGet key w)) = calls w"
  by (simp add: cacheGet_def calls_def split: option.splits)

text \<open>
  Claim C4, as stated, fails where the unexpired entry holds \<open>undefined\<close>:
  \<open>cacheGet\<close> returns the entry's value, \<open>cacheGetOrSet\<close> takes \<open>undefined\<close> for a
  miss, calls the producer once and returns the producer's 42.
\<close>

theorem cacheGetOrSet_undefined_entry_counterexample:
  "store undefinedEntryWorld ''k'' = Some \<lparr>entry_value = None, expiresAt = 60000\<rparr>
   \<and> now undefinedEntryWorld \<le> 60000
   \<and> fst (cacheGetOrSet ''k'' (counted produce42) 60000 undefinedEntryWorld) = Inr (Some 42)
   \<and> fst (cacheGetOrSet ''k'' (counted produce42) 60000 undefinedEntryWorld) \<noteq> Inr None
   \<and> calls undefinedEntryWorld = 0
   \<and> calls (snd (cacheGetOrSet ''k'' (counted produce42) 60000 undefinedEntryWorld)) = 1"
  by (simp add: undefinedEntryWorld_def produce42_def cacheGetOrSet_def cacheGet_def
      counted_def cacheSet_def calls_def)

text \<open>
  Claim C4, amended. For every key, producer and ttl: when the store holds an unexpired
  entry for the key whose value is not \<open>undefined\<close>, that value is returned, the state is
  unchanged and the producer is not invoked. Otherwise (no entry, an expired entry, or an
  entry holding \<open>undefined\<close>) the producer is invoked exactly once, on the state the lookup
  leaves; when it returns \<open>r\<close>, \<open>r\<close> is returned and stored under the key, expiring
  \<open>ttl\<close> after the time of the store.
\<close>

theorem cacheGetOrSet_hit_or_miss:
  fixes fn :: "('v, 'x) world \<Rightarrow> (js_error + 'v option) \<times> ('v, 'x) world"
  shows
  "(store w key = Some e \<and> now w \<le> expiresAt e \<and> entry_value e = Some v \<longrightarrow>
      cacheGetOrSet key (counted fn) ttl w = (Inr (Some v), w))
   \<and> (store w key = None
        \<or> (\<exists>e. store w key = Some e \<and> (now w > expiresAt e \<or> entry_value e = None)) \<longrightarrow>
      calls (snd (cacheGetOrSet key (counted fn) ttl w)) = Suc (calls w)
      \<and> (\<forall>r w'. counted fn (snd (cacheGet key w)) = (Inr r, w') \<longrightarrow>
            fst (cacheGetOrSet key (counted fn) ttl w) = Inr r
          \<and> store (snd (cacheGetOrSet key (counted fn) ttl w)) key
              = Some \<lparr>entry_value = r, expiresAt = now w' + ttl\<rparr>))"
proof (intro conjI impI allI)
  assume "store w key = Some e \<and> now w \<le> expiresAt e \<and> entry_value e = Some v"
  then show "cacheGetOrSet key (counted fn) ttl w = (Inr (Some v), w)"
    by (simp add: cacheGetOrSet_hit)
next
  assume m: "store w key = None
    \<or> (\<exists>e. store w key = Some e \<and> (now w > expiresAt e \<or> entry_value e = None))"
  have eq: "cacheGetOrSet key (counted fn) ttl w =
           (case counted fn (snd (cacheGet key w)) of
              (Inl err, w2) \<Rightarrow> (Inl err, w2)
            | (Inr v, w2) \<Rightarrow> (Inr v, cacheSet key v ttl w2))"
    by (rule cacheGetOrSet_miss) (rule cacheGet_miss [OF m])
  obtain r w2 where f: "counted fn (snd (cacheGet key w)) = (r, w2)"
    by (cases "counted fn (snd (cacheGet key w))")
  have c2: "calls w2 = Suc (calls w)"
    using calls_counted [of fn "snd (cacheGet key w)"] f by (simp add: calls_cacheGet)
  show "calls (snd (cacheGetOrSet key (counted fn) ttl w)) = Suc (calls w)"
    using eq f c2 by (cases r) (simp_all add: calls_cacheSet)
  fix r' w'
  assume g: "counted fn (snd (cacheGet key w)) = (Inr r', w')"
  show "fst (cacheGetOrSet key (counted fn) ttl w) = Inr r'"
    using eq g by simp
  show "store (snd (cacheGetOrSet key (counted fn) ttl w)) key
              = Some \<lparr>entry_value = r', expiresAt = now w' + ttl\<rparr>"
    using eq g by (simp add: cacheSet_def)
qed

theorem cacheGetOrSet_hit_or_miss_witness:
  "cacheGetOrSet ''hit'' (counted produce42) 60000
       \<lparr>store = [''hit'' \<mapsto> \<lparr>entry_value = Some 7, expiresAt = 60000\<rparr>], now = 5, ext = (0, ())\<rparr>
     = (Inr (Some 7),
        \<lparr>store = [''hit'' \<mapsto> \<lparr>entry_value = Some 7, expiresAt = 60000\<rparr>], now = 5, ext = (0, ())\<rparr>)
   \<and> calls (snd (cacheGetOrSet ''miss'' (counted produce42) 60000
        \<lparr>store = [''hit'' \<mapsto> \<lparr>entry_value = Some 7, expiresAt = 60000\<rparr>], now = 5, ext = (0, ())\<rparr>)) = 1
   \<and> fst (cacheGetOrSet ''miss'' (counted produce42) 60000
        \<lparr>store = [''hit'' \<mapsto> \<lparr>entry_value = Some 7, expiresAt = 60000\<rparr>], now = 5, ext = (0, ())\<rparr>)
       = Inr (Some 42)
   \<and> store (snd (cacheGetOrSet ''miss'' (counted produce42) 60000
        \<lparr>store = [''hit'' \<mapsto> \<lparr>entry_value = Some 7, expiresAt = 60000\<rparr>], now = 5, ext = (0, ())\<rparr>)) ''miss''
       = Some \<lparr>entry_value = Some 42, expiresAt = 60005\<rparr>"
proof -
  let ?w = "\<lparr>store = [''hit'' \<mapsto> \<lparr>entry_value = Some (7::nat), expiresAt = 60000\<rparr>],
             now = 5, ext = (0::nat, ())\<rparr>"
  note h = cacheGetOrSet_hit_or_miss
    [of ?w "''hit''" "\<lparr>entry_value = Some 7, expiresAt = 60000\<rparr>" 7 produce42 60000]
  note m = cacheGetOrSet_hit_or_miss
    [of ?w "''miss''" "\<lparr>entry_value = Some 7, expiresAt = 60000\<rparr>" 7 produce42 60000]
  have c: "counted produce42 (snd (cacheGet ''miss'' ?w))
      = (Inr (Some 42),
         \<lparr>store = [''hit'' \<mapsto> \<lparr>entry_value = Some 7, expiresAt = 60000\<rparr>], now = 5, ext = (1, ())\<rparr>)"
    by (simp add: counted_def produce42_def cacheGet_def)
  have 1: "cacheGetOrSet ''hit'' (counted produce42) 60000 ?w = (Inr (Some 7), ?w)"
    using h by simp
  have 2: "calls (snd (cacheGetOrSet ''miss'' (counted produce42) 60000 ?w)) = 1"
    using m by (simp add: calls_def)
  have 3: "fst (cacheGetOrSet ''miss'' (counted produce42) 60000 ?w) = Inr (Some 42)
    \<and> store (snd (cacheGetOrSet ''miss'' (counted produce42) 60000 ?w)) ''miss''
       = Some \<lparr>entry_value = Some 42, expiresAt = 60005\<rparr>"
    using m c by simp
  show ?thesis using 1 2 3 by simp
qed

section \<open>Deduplication of sample records: properties\<close>

lemma map_of_mapSet: "map_of (mapSet k v m) = (map_of m)(k \<mapsto> v)"
  by (induction m) (auto simp: fun_eq_iff)

lemma keys_mapSet: "map fst (mapSet k v m) = (if k \<in> fst ` set m then map fst m else map fst m @ [k])"
  by (induction m) (auto simp: image_iff, force+)

lemma mapGet_dedupStep:
  "mapGet (dedupStep m c) p =
     (if sample_path c = p then (case mapGet m p of None \<Rightarrow> Some c | Some e \<Rightarrow> Some (mergeSample e c))
      else mapGet m p)"
  by (auto simp: dedupStep_def mapGet_def map_of_mapSet split: option.splits)

lemma mapGet_foldl_dedupStep:
  "mapGet (foldl dedupStep [] codes) p =
     (case filter (\<lambda>c. sample_path c = p) codes of [] \<Rightarrow> None | d # ds \<Rightarrow> Some (foldl mergeSample d ds))"
proof (induction codes rule: rev_induct)
  case Nil
  then show ?case by (simp add: mapGet_def)
next
  case (snoc c codes)
  then show ?case
    by (cases "filter (\<lambda>c. sample_path c = p) codes") (simp_all add: mapGet_dedupStep)
qed

lemma foldl_mergeSample_props:
  "sample_path (foldl mergeSample d ds) = sample_path d
   \<and> sample_title (foldl mergeSample d ds) = sample_title d
   \<and> (sample_featured (foldl mergeSample d ds) \<longleftrightarrow> sample_featured d \<or> (\<exists>c\<in>set ds. sample_featured c))
   \<and> (sample_beta (foldl mergeSample d ds) \<longleftrightarrow> sample_beta d \<or> (\<exists>c\<in>set ds. sample_beta c))
   \<and> sample_depth (foldl mergeSample d ds) = Min (sample_depth ` set (d # ds))
   \<and> (truthy (sample_framework (foldl mergeSample d ds)) \<longleftrightarrow> truthy (sample_framework d) \<or> (\<exists>c\<in>set ds. truthy (sample_framework c)))"
proof (induction ds arbitrary: d)
  case Nil
  show ?case by simp
next
  case (Cons c ds)
  have m: "Min (insert (min (sample_depth c) (sample_depth d)) (sample_depth ` set ds)) = Min (insert (sample_depth d) (insert (sample_depth c) (sample_depth ` set ds)))"
  proof (cases "set ds = {}")
    case True then show ?thesis by (simp add: min.commute)
  next
    case False then show ?thesis by (simp add: min.assoc min.commute min.left_commute)
  qed
  show ?case using Cons.IH [of "mergeSample d c"] m
    by (auto simp: mergeSample_def orElse_def)
qed

lemma distinct_keys_dedup: "distinct (map fst (foldl dedupStep [] codes))"
proof (induction codes rule: rev_induct)
  case Nil show ?case by simp
next
  case (snoc c codes)
  then show ?case
    by (auto simp: dedupStep_def keys_mapSet mapGet_def split: option.splits dest: map_of_SomeD simp: map_of_eq_None_iff)
qed

lemma set_mapSet: "x \<in> set (mapSet k v m) \<Longrightarrow> x = (k, v) \<or> x \<in> set m"
  by (induction m) (auto split: if_splits)

lemma path_mergeSample: "sample_path (mergeSample e c) = sample_path e"
  by (simp add: mergeSample_def)

lemma dedupStep_entries:
  assumes "(k, v) \<in> set (dedupStep m c)" and "\<And>k v. (k, v) \<in> set m \<Longrightarrow> sample_path v = k"
  shows "sample_path v = k"
proof (cases "mapGet m (sample_path c)")
  case None
  then have "(k, v) = (sample_path c, c) \<or> (k, v) \<in> set m"
    using assms(1) set_mapSet [of "(k, v)" "sample_path c" c m] by (simp add: dedupStep_def)
  then show ?thesis using assms(2) by auto
next
  case (Some e)
  then have "sample_path e = sample_path c"
    using assms(2) [of "sample_path c" e] by (auto simp: mapGet_def dest: map_of_SomeD)
  moreover have "(k, v) = (sample_path c, mergeSample e c) \<or> (k, v) \<in> set m"
    using assms(1) Some set_mapSet [of "(k, v)" "sample_path c" "mergeSample e c" m]
    by (simp add: dedupStep_def)
  ultimately show ?thesis using assms(2) by (auto simp: path_mergeSample)
qed

lemma key_is_path: "(k, v) \<in> set (foldl dedupStep [] codes) \<Longrightarrow> sample_path v = k"
proof (induction codes arbitrary: k v rule: rev_induct)
  case Nil then show ?case by simp
next
  case (snoc c codes)
  have "(k, v) \<in> set (dedupStep (foldl dedupStep [] codes) c)"
    using snoc.prems by simp
  then show ?case using snoc.IH by (rule dedupStep_entries)
qed

lemma filter_values_unique:
  assumes "distinct (map fst m)" and "\<And>k v. (k, v) \<in> set m \<Longrightarrow> f v = k"
    and "map_of m p = Some x"
  shows "filter (\<lambda>r. f r = p) (map snd m) = [x]"
  using assms
proof (induction m)
  case Nil then show ?case by simp
next
  case (Cons a m)
  obtain k v where a: "a = (k, v)" by (cases a)
  show ?case
  proof (cases "k = p")
    case True
    have "\<And>r. r \<in> set (map snd m) \<Longrightarrow> f r \<noteq> p"
      using Cons.prems(1,2) a True by force
    then have "filter (\<lambda>r. f r = p) (map snd m) = []"
      by (simp add: filter_empty_conv)
    then show ?thesis using Cons.prems a True by auto
  next
    case False
    then show ?thesis using Cons a by auto
  qed
qed

lemma filter_path_deduplicate:
  assumes "mapGet (foldl dedupStep [] codes) p = Some m"
  shows "filter (\<lambda>r. sample_path r = p) (deduplicate codes) = [m]"
  using assms distinct_keys_dedup [of codes] key_is_path [of _ _ codes]
  unfolding deduplicate_def mapGet_def
  by (intro filter_values_unique) auto



text \<open>
  Claim C8. When the flattened list holds records with the path \<open>p\<close>, the deduplicated
  list holds exactly one record with that path; its framework is non-empty iff some
  duplicate's is, it is featured iff some duplicate is, beta iff some duplicate is, and
  its depth is the least depth of the duplicates.
\<close>

theorem deduplicate_merge:
  assumes "c0 \<in> set sampleCodes" and "sample_path c0 = p"
  shows "\<exists>m. filter (\<lambda>r. sample_path r = p) (deduplicate sampleCodes) = [m]
     \<and> (truthy (sample_framework m) \<longleftrightarrow> (\<exists>c\<in>set sampleCodes. sample_path c = p \<and> truthy (sample_framework c)))
     \<and> (sample_featured m \<longleftrightarrow> (\<exists>c\<in>set sampleCodes. sample_path c = p \<and> sample_featured c))
     \<and> (sample_beta m \<longleftrightarrow> (\<exists>c\<in>set sampleCodes. sample_path c = p \<and> sample_beta c))
     \<and> sample_depth m = Min (set (map sample_depth (filter (\<lambda>c. sample_path c = p) sampleCodes)))"
proof -
  have "filter (\<lambda>c. sample_path c = p) sampleCodes \<noteq> []"
    using assms by (auto simp: filter_empty_conv)
  then obtain d ds where dups: "filter (\<lambda>c. sample_path c = p) sampleCodes = d # ds"
    by (cases "filter (\<lambda>c. sample_path c = p) sampleCodes") auto
  define m where "m = foldl mergeSample d ds"
  have get: "mapGet (foldl dedupStep [] sampleCodes) p = Some m"
    by (simp add: mapGet_foldl_dedupStep dups m_def)
  have one: "filter (\<lambda>r. sample_path r = p) (deduplicate sampleCodes) = [m]"
    using get by (rule filter_path_deduplicate)
  have mem: "\<And>P. (\<exists>c\<in>set sampleCodes. sample_path c = p \<and> P c) \<longleftrightarrow> (P d \<or> (\<exists>c\<in>set ds. P c))"
  proof -
    fix P
    have "(\<exists>c\<in>set sampleCodes. sample_path c = p \<and> P c) \<longleftrightarrow> (\<exists>c\<in>set (filter (\<lambda>c. sample_path c = p) sampleCodes). P c)"
      by auto
    then show "(\<exists>c\<in>set sampleCodes. sample_path c = p \<and> P c) \<longleftrightarrow> (P d \<or> (\<exists>c\<in>set ds. P c))"
      by (simp add: dups)
  qed
  note props = foldl_mergeSample_props [of d ds, folded m_def]
  have "truthy (sample_framework m) \<longleftrightarrow> (\<exists>c\<in>set sampleCodes. sample_path c = p \<and> truthy (sample_framework c))"
    using props mem [of "\<lambda>c. truthy (sample_framework c)"] by simp
  moreover have "sample_featured m \<longleftrightarrow> (\<exists>c\<in>set sampleCodes. sample_path c = p \<and> sample_featured c)"
    using props mem [of sample_featured] by simp
  moreover have "sample_beta m \<longleftrightarrow> (\<exists>c\<in>set sampleCodes. sample_path c = p \<and> sample_beta c)"
    using props mem [of sample_beta] by simp
  moreover have "sample_depth m = Min (set (map sample_depth (filter (\<lambda>c. sample_path c = p) sampleCodes)))"
    using props by (simp add: dups)
  ultimately show ?thesis using one by blast
qed

lemma deduplicate_two_records: "deduplicate [sampleFirst, sampleSecond] = [sampleFirst\<lparr>sample_framework := Some ''SwiftUI'', sample_featured := True, sample_beta := True, sample_depth := 1\<rparr>]"
  by (simp add: deduplicate_def dedupStep_def mapGet_def mergeSample_def orElse_def truthy_def sampleFirst_def sampleSecond_def)

theorem deduplicate_merge_witness: "deduplicate [sampleFirst, sampleSecond] = [sampleFirst\<lparr>sample_framework := Some ''SwiftUI'', sample_featured := True, sample_beta := True, sample_depth := 1\<rparr>]
  \<and> (\<exists>m. filter (\<lambda>r. sample_path r = sample_path sampleFirst) (deduplicate [sampleFirst, sampleSecond]) = [m] \<and> truthy (sample_framework m) \<and> sample_featured m \<and> sample_beta m \<and> sample_depth m = 1)"
proof -
  have "sampleFirst \<in> set [sampleFirst, sampleSecond]" by simp
  from deduplicate_merge [OF this refl]
  obtain m where "filter (\<lambda>r. sample_path r = sample_path sampleFirst) (deduplicate [sampleFirst, sampleSecond]) = [m]"
     and "truthy (sample_framework m) \<longleftrightarrow> (\<exists>c\<in>set [sampleFirst, sampleSecond]. sample_path c = sample_path sampleFirst \<and> truthy (sample_framework c))"
     and "sample_featured m \<longleftrightarrow> (\<exists>c\<in>set [sampleFirst, sampleSecond]. sample_path c = sample_path sampleFirst \<and> sample_featured c)"
     and "sample_beta m \<longleftrightarrow> (\<exists>c\<in>set [sampleFirst, sampleSecond]. sample_path c = sample_path sampleFirst \<and> sample_beta c)"
     and "sample_depth m = Min (set (map sample_depth (filter (\<lambda>c. sample_path c = sample_path sampleFirst) [sampleFirst, sampleSecond])))"
    by blast
  then have "filter (\<lambda>r. sample_path r = sample_path sampleFirst) (deduplicate [sampleFirst, sampleSecond]) = [m] \<and> truthy (sample_framework m) \<and> sample_featured m \<and> sample_beta m \<and> sample_depth m = 1"
    by (simp add: sampleFirst_def sampleSecond_def truthy_def)
  then show ?thesis using deduplicate_two_records by blast
qed

section \<open>Wildcard patterns: properties\<close>

lemma not_syntax_simps:
  assumes "\<not> isSyntaxChar c"
  shows "c \<noteq> backslash" "c \<noteq> CHR ''.''" "c \<noteq> CHR ''^''" "c \<noteq> CHR ''$''" "c \<noteq> CHR ''*''"
  using assms by (auto simp: isSyntaxChar_def syntaxChars_def)

lemma rx_parse_plain:
  assumes "\<not> isSyntaxChar c"
  shows "rx_parse (c # r) = map_option (Cons (Lit c)) (rx_parse r)"
  using assms not_syntax_simps [OF assms] by (cases r) simp_all

lemma rx_parse_escaped:
  assumes "isSyntaxChar d"
  shows "rx_parse (backslash # d # r) = map_option (Cons (Lit d)) (rx_parse r)"
  using assms by simp

lemma rx_parse_anyrun:
  "rx_parse (CHR ''.'' # CHR ''*'' # r) = map_option (Cons AnyRun) (rx_parse r)"
  by (simp add: backslash_def)

lemma rx_parse_bol: "rx_parse (CHR ''^'' # r) = map_option (Cons Bol) (rx_parse r)"
  by (cases r) (simp_all add: backslash_def)

lemma rx_parse_eol: "rx_parse ''$'' = Some [Eol]"
  by simp

lemma rx_parse_escapeRegExp:
  "rx_parse (escapeRegExp p @ r) = map_option ((@) (map Lit p)) (rx_parse r)"
proof (induction p)
  case Nil
  show ?case by (simp add: option.map_ident)
next
  case (Cons c p)
  show ?case
  proof (cases "isSyntaxChar c")
    case True
    then show ?thesis
      using Cons by (simp add: rx_parse_escaped option.map_comp comp_def del: rx_parse.simps)
  next
    case False
    then show ?thesis
      using Cons by (simp add: rx_parse_plain option.map_comp comp_def del: rx_parse.simps)
  qed
qed

lemma rx_parse_join:
  "rx_parse (join ''.*'' (map escapeRegExp parts) @ r) = map_option ((@) (atomsOf parts)) (rx_parse r)"
proof (induction parts rule: atomsOf.induct)
  case 1
  show ?case by (simp add: option.map_ident)
next
  case (2 p)
  show ?case by (simp add: rx_parse_escapeRegExp)
next
  case (3 p q ps)
  have "rx_parse (join ''.*'' (map escapeRegExp (p # q # ps)) @ r)
      = rx_parse (escapeRegExp p @ (CHR ''.'' # CHR ''*'' # (join ''.*'' (map escapeRegExp (q # ps)) @ r)))"
    by simp
  also have "\<dots> = map_option ((@) (map Lit p)) (map_option (Cons AnyRun) (rx_parse (join ''.*'' (map escapeRegExp (q # ps)) @ r)))"
    by (simp only: rx_parse_escapeRegExp rx_parse_anyrun)
  also have "\<dots> = map_option ((@) (atomsOf (p # q # ps))) (rx_parse r)"
    using 3 by (cases "rx_parse r") simp_all
  finally show ?case .
qed

lemma rx_parse_source:
  "rx_parse (''^'' @ regexPattern pattern @ ''$'') = Some (Bol # atomsOf (splitOn CHR ''*'' pattern) @ [Eol])"
proof -
  have "rx_parse (''^'' @ regexPattern pattern @ ''$'')
      = map_option (Cons Bol) (rx_parse (join ''.*'' (map escapeRegExp (splitOn CHR ''*'' pattern)) @ ''$''))"
    by (simp add: regexPattern_def rx_parse_bol del: rx_parse.simps)
  also have "\<dots> = Some (Bol # atomsOf (splitOn CHR ''*'' pattern) @ [Eol])"
    by (simp only: rx_parse_join rx_parse_eol) simp
  finally show ?thesis .
qed

lemma test_anchored:
  "list_ex (\<lambda>i. rx_match (Bol # atoms) (i = 0) (drop i name)) [0..<Suc (length name)]
     = rx_match atoms True name"
  by (auto simp: list_ex_iff)

lemma matchesPattern_atoms:
  "matchesPattern name pattern = rx_match (atomsOf (splitOn CHR ''*'' pattern) @ [Eol]) True name"
proof -
  have "regExpTest (''^'' @ regexPattern pattern @ ''$'') name
      = Some (rx_match (atomsOf (splitOn CHR ''*'' pattern) @ [Eol]) True name)"
    by (simp only: regExpTest_def rx_parse_source option.map test_anchored)
  then show ?thesis
    by (simp only: matchesPattern_def option.case)
qed

lemma rx_match_flag:
  "Bol \<notin> set atoms \<Longrightarrow> rx_match atoms b s = rx_match atoms False s"
  by (induction atoms b s rule: rx_match.induct) auto

lemma rx_match_lits:
  "rx_match (map Lit p @ atoms) False s \<longleftrightarrow>
     (\<exists>u v. s = u @ v \<and> ci_eq p u \<and> rx_match atoms False v)"
proof (induction p arbitrary: s)
  case Nil
  show ?case by (simp add: ci_eq_def)
next
  case (Cons c p)
  show ?case
  proof (cases s)
    case Nil
    then show ?thesis by (simp add: ci_eq_def)
  next
    case (Cons x xs)
    have "(\<exists>u v. x # xs = u @ v \<and> ci_eq (c # p) u \<and> rx_match atoms False v)
      \<longleftrightarrow> (canonicalize x = canonicalize c \<and> (\<exists>u v. xs = u @ v \<and> ci_eq p u \<and> rx_match atoms False v))"
      (is "?L \<longleftrightarrow> ?R")
    proof
      assume ?L
      then obtain u v where h: "x # xs = u @ v" "ci_eq (c # p) u" "rx_match atoms False v" by blast
      then obtain u' where u: "u = x # u'" by (cases u) (auto simp: ci_eq_def)
      with h show ?R by (auto simp: ci_eq_def)
    next
      assume ?R
      then obtain u v where "xs = u @ v" "ci_eq p u" "rx_match atoms False v" "canonicalize x = canonicalize c" by blast
      then have "x # xs = (x # u) @ v \<and> ci_eq (c # p) (x # u) \<and> rx_match atoms False v"
        by (simp add: ci_eq_def)
      then show ?L by blast
    qed
    then show ?thesis using Cons Cons.IH [of xs] by simp
  qed
qed

lemma rx_match_anyrun:
  "rx_match (AnyRun # atoms) False s \<longleftrightarrow>
     (\<exists>r v. s = r @ v \<and> list_all (\<lambda>c. \<not> isLineTerminator c) r \<and> rx_match atoms False v)"
proof (induction s)
  case Nil
  show ?case by simp
next
  case (Cons x xs)
  have "(\<exists>r v. x # xs = r @ v \<and> list_all (\<lambda>c. \<not> isLineTerminator c) r \<and> rx_match atoms False v)
     \<longleftrightarrow> (rx_match atoms False (x # xs)
         \<or> (\<not> isLineTerminator x \<and> (\<exists>r v. xs = r @ v \<and> list_all (\<lambda>c. \<not> isLineTerminator c) r \<and> rx_match atoms False v)))"
    (is "?L \<longleftrightarrow> ?R")
  proof
    assume ?L
    then obtain r v where h: "x # xs = r @ v" "list_all (\<lambda>c. \<not> isLineTerminator c) r" "rx_match atoms False v" by blast
    show ?R
    proof (cases r)
      case Nil
      with h show ?thesis by simp
    next
      case (Cons y ys)
      with h show ?thesis by auto
    qed
  next
    assume ?R
    then show ?L
    proof
      assume "rx_match atoms False (x # xs)"
      then have "x # xs = [] @ (x # xs) \<and> list_all (\<lambda>c. \<not> isLineTerminator c) [] \<and> rx_match atoms False (x # xs)" by simp
      then show ?L by blast
    next
      assume "\<not> isLineTerminator x \<and> (\<exists>r v. xs = r @ v \<and> list_all (\<lambda>c. \<not> isLineTerminator c) r \<and> rx_match atoms False v)"
      then obtain r v where "xs = r @ v" "list_all (\<lambda>c. \<not> isLineTerminator c) r" "rx_match atoms False v" "\<not> isLineTerminator x" by blast
      then have "x # xs = (x # r) @ v \<and> list_all (\<lambda>c. \<not> isLineTerminator c) (x # r) \<and> rx_match atoms False v" by simp
      then show ?L by blast
    qed
  qed
  then show ?case using Cons by auto
qed

lemma rx_match_eol: "rx_match [Eol] False s \<longleftrightarrow> s = []"
  by simp

lemma rx_match_atomsOf:
  "parts \<noteq> [] \<Longrightarrow> rx_match (atomsOf parts @ [Eol]) False t \<longleftrightarrow> wildMatch (\<lambda>c. \<not> isLineTerminator c) parts t"
proof (induction parts arbitrary: t rule: atomsOf.induct)
  case 1
  then show ?case by simp
next
  case (2 p)
  have "rx_match (map Lit p @ [Eol]) False t \<longleftrightarrow> ci_eq p t"
    by (simp only: rx_match_lits rx_match_eol) auto
  then show ?case by simp
next
  case (3 p q ps)
  have "rx_match (atomsOf (p # q # ps) @ [Eol]) False t
    \<longleftrightarrow> rx_match (map Lit p @ (AnyRun # (atomsOf (q # ps) @ [Eol]))) False t"
    by simp
  also have "\<dots> \<longleftrightarrow> (\<exists>u v. t = u @ v \<and> ci_eq p u \<and>
        (\<exists>r v'. v = r @ v' \<and> list_all (\<lambda>c. \<not> isLineTerminator c) r \<and> rx_match (atomsOf (q # ps) @ [Eol]) False v'))"
    by (simp only: rx_match_lits rx_match_anyrun)
  also have "\<dots> \<longleftrightarrow> (\<exists>u r v'. t = u @ r @ v' \<and> ci_eq p u \<and> list_all (\<lambda>c. \<not> isLineTerminator c) r
         \<and> wildMatch (\<lambda>c. \<not> isLineTerminator c) (q # ps) v')"
    using 3 by blast
  finally show ?case by simp
qed

lemma splitOn_nonempty: "splitOn sep s \<noteq> []"
  by (induction s) (auto split: list.splits)

lemma atomsOf_no_Bol: "Bol \<notin> set (atomsOf parts)"
  by (induction parts rule: atomsOf.induct) auto

lemma matchesPattern_wild:
  "matchesPattern name pattern \<longleftrightarrow> wildMatch (\<lambda>c. \<not> isLineTerminator c) (splitOn CHR ''*'' pattern) name"
proof -
  have "Bol \<notin> set (atomsOf (splitOn CHR ''*'' pattern) @ [Eol])"
    by (simp add: atomsOf_no_Bol)
  then have "matchesPattern name pattern = rx_match (atomsOf (splitOn CHR ''*'' pattern) @ [Eol]) False name"
    unfolding matchesPattern_atoms by (rule rx_match_flag)
  then show ?thesis
    by (simp only: rx_match_atomsOf [OF splitOn_nonempty])
qed

lemma wildMatch_mono_ok:
  "list_all ok t \<Longrightarrow> wildMatch ok parts t \<longleftrightarrow> wildMatch (\<lambda>_. True) parts t"
proof (induction parts arbitrary: t rule: atomsOf.induct)
  case 1 show ?case by simp
next
  case (2 p) show ?case by simp
next
  case (3 p q ps)
  show ?case
  proof
    assume "wildMatch ok (p # q # ps) t"
    then obtain u r v where h: "t = u @ r @ v" "ci_eq p u" "list_all ok r" "wildMatch ok (q # ps) v" by auto
    then have "list_all ok v" using 3(2) by simp
    then have "wildMatch (\<lambda>_. True) (q # ps) v" using 3(1) h by blast
    then have "t = u @ r @ v \<and> ci_eq p u \<and> list_all (\<lambda>_. True) r \<and> wildMatch (\<lambda>_. True) (q # ps) v"
      using h by (simp add: list_all_iff)
    then show "wildMatch (\<lambda>_. True) (p # q # ps) t" by (simp del: wildMatch.simps(2)) blast
  next
    assume "wildMatch (\<lambda>_. True) (p # q # ps) t"
    then obtain u r v where h: "t = u @ r @ v" "ci_eq p u" "wildMatch (\<lambda>_. True) (q # ps) v" by auto
    then have "list_all ok v" "list_all ok r" using 3(2) by simp_all
    then have "t = u @ r @ v \<and> ci_eq p u \<and> list_all ok r \<and> wildMatch ok (q # ps) v"
      using 3(1) h by blast
    then show "wildMatch ok (p # q # ps) t" by (simp del: wildMatch.simps(2)) blast
  qed
qed

text \<open>
  Claim C7, as stated, fails on a title that holds a line terminator: \<open>*\<close> becomes
  \<open>.*\<close>, and without the \<open>s\<close> flag \<open>.\<close> does not match a line feed. The title
  \<open>a\<close>, line feed, \<open>b\<close> is a run of characters, and the pattern \<open>*\<close> does not match it.
\<close>

theorem matchesPattern_line_feed_counterexample:
  "wildMatch (\<lambda>_. True) (splitOn CHR ''*'' ''*'') [CHR ''a'', CHR 0x0A, CHR ''b'']
   \<and> \<not> matchesPattern [CHR ''a'', CHR 0x0A, CHR ''b''] ''*''"
proof -
  have "[CHR ''a'', CHR 0x0A, CHR ''b''] = [] @ [CHR ''a'', CHR 0x0A, CHR ''b''] @ []
      \<and> ci_eq [] [] \<and> list_all (\<lambda>_. True) [CHR ''a'', CHR 0x0A, CHR ''b''] \<and> ci_eq [] []"
    by (simp add: ci_eq_def)
  then have "wildMatch (\<lambda>_. True) [[], []] [CHR ''a'', CHR 0x0A, CHR ''b'']"
    unfolding wildMatch.simps by blast
  moreover have "\<not> matchesPattern [CHR ''a'', CHR 0x0A, CHR ''b''] ''*''"
    by (simp add: matchesPattern_def regExpTest_def regexPattern_def isSyntaxChar_def
        syntaxChars_def backslash_def canonicalize_def isLineTerminator_def)
  ultimately show ?thesis by simp
qed

text \<open>
  Claim C7, amended. For every pattern and title, \<open>matchesPattern\<close> takes \<open>*\<close> for any
  run of characters other than line terminators, every other character of the pattern
  for itself, matches the whole title and compares case-insensitively; on a title
  without line terminators \<open>*\<close> is any run of characters.
\<close>

theorem matchesPattern_wildcard:
  "(matchesPattern name pattern
      \<longleftrightarrow> wildMatch (\<lambda>c. \<not> isLineTerminator c) (splitOn CHR ''*'' pattern) name)
   \<and> (list_all (\<lambda>c. \<not> isLineTerminator c) name \<longrightarrow>
        (matchesPattern name pattern \<longleftrightarrow> wildMatch (\<lambda>_. True) (splitOn CHR ''*'' pattern) name))"
  using matchesPattern_wild [of name pattern]
    wildMatch_mono_ok [of "\<lambda>c. \<not> isLineTerminator c" name "splitOn CHR ''*'' pattern"]
  by blast

lemmas matchesPattern_eval =
  matchesPattern_def regExpTest_def regexPattern_def isSyntaxChar_def
  syntaxChars_def backslash_def canonicalize_def isLineTerminator_def

theorem matchesPattern_wildcard_witness:
  "list_all (\<lambda>c. \<not> isLineTerminator c) ''NavigationView''
   \<and> matchesPattern ''NavigationView'' ''*View''
   \<and> wildMatch (\<lambda>_. True) (splitOn CHR ''*'' ''*View'') ''NavigationView''
   \<and> matchesPattern ''View'' ''*View''
   \<and> matchesPattern ''navigationVIEW'' ''*View''
   \<and> \<not> matchesPattern ''Viewer'' ''*View''
   \<and> \<not> wildMatch (\<lambda>_. True) (splitOn CHR ''*'' ''*View'') ''Viewer''"
proof -
  have n: "list_all (\<lambda>c. \<not> isLineTerminator c) ''NavigationView''"
    and v: "list_all (\<lambda>c. \<not> isLineTerminator c) ''Viewer''"
    by (simp_all add: isLineTerminator_def)
  have 1: "matchesPattern ''NavigationView'' ''*View''"
    and 2: "matchesPattern ''View'' ''*View''"
    and 4: "\<not> matchesPattern ''Viewer'' ''*View''"
    by (simp_all add: matchesPattern_eval)
  have 3: "matchesPattern ''navigationVIEW'' ''*View''"
    by code_simp
  have 5: "wildMatch (\<lambda>_. True) (splitOn CHR ''*'' ''*View'') ''NavigationView''"
    using matchesPattern_wildcard [of "''NavigationView''" "''*View''"] n 1 by blast
  have 6: "\<not> wildMatch (\<lambda>_. True) (splitOn CHR ''*'' ''*View'') ''Viewer''"
    using matchesPattern_wildcard [of "''Viewer''" "''*View''"] v 4 by blast
  show ?thesis using n 1 2 3 4 5 6 by blast
qed

section \<open>The symbol walk: properties\<close>

lemma allMatches_unfold:
  "allMatches P depth items = (if depth > 6 then [] else concat (map (itemMatches P depth) items))"
  by (subst allMatches.simps) (simp add: itemMatches_def [abs_def])

lemma take_step_none:
  assumes "\<not> limit \<le> int (length acc)" and "length m \<le> 1"
  shows "(acc @ m) @ take (nat (limit - int (length (acc @ m)))) R
       = acc @ take (nat (limit - int (length acc))) (m @ R)"
proof -
  have "nat (limit - int (length (acc @ m))) = nat (limit - int (length acc)) - length m"
    by simp
  moreover have "length m \<le> nat (limit - int (length acc))"
    using assms by simp
  ultimately show ?thesis by simp
qed

lemma take_step_full:
  assumes "limit \<le> int (length (acc @ pre))" "pre = take (nat (limit - int (length acc))) C"
  shows "take (nat (limit - int (length acc))) (C @ R) = pre"
proof -
  have "nat (limit - int (length acc)) \<le> length pre" using assms(1) by simp
  then have "nat (limit - int (length acc)) \<le> length C" using assms(2) by simp
  then show ?thesis using assms(2) by simp
qed

lemma take_step_more:
  assumes "pre = take (nat (limit - int (length acc))) C"
  shows "(acc @ pre) @ take (nat (limit - int (length (acc @ pre)))) R
       = acc @ take (nat (limit - int (length acc))) (C @ R)"
proof -
  let ?k = "nat (limit - int (length acc))"
  have "nat (limit - int (length (acc @ pre))) = ?k - length pre" by simp
  moreover have "?k - length pre = ?k - length C"
    using assms by (simp add: min_def)
  ultimately show ?thesis using assms by simp
qed

lemma findSymbolsLoop_Cons:
  "findSymbolsLoop (item # rest) symbolType namePattern limit symbols depth =
     (if limit \<le> int (length symbols) then (True, symbols)
      else case item_children item of
             None \<Rightarrow> findSymbolsLoop rest symbolType namePattern limit
                      (symbols @ (if symbolFilter symbolType namePattern item then [item] else [])) depth
           | Some children \<Rightarrow>
               if int (length (symbols @ (if symbolFilter symbolType namePattern item then [item] else []))) < limit
               then (case findSymbolsRecursive children symbolType namePattern limit
                           (symbols @ (if symbolFilter symbolType namePattern item then [item] else []))
                           (depth + 1) of
                       (True, symbols2) \<Rightarrow> (True, symbols2)
                     | (False, symbols2) \<Rightarrow>
                         findSymbolsLoop rest symbolType namePattern limit symbols2 depth)
               else findSymbolsLoop rest symbolType namePattern limit
                      (symbols @ (if symbolFilter symbolType namePattern item then [item] else [])) depth)"
  unfolding symbolFilter_def
  by (auto simp: Let_def simp del: findSymbolsRecursive.simps split: option.splits)

lemma find_general:
  shows "snd (findSymbolsRecursive items symbolType namePattern limit symbols depth)
        = symbols @ take (nat (limit - int (length symbols))) (allMatches (symbolFilter symbolType namePattern) depth items)
      \<and> (fst (findSymbolsRecursive items symbolType namePattern limit symbols depth)
           \<longrightarrow> limit \<le> int (length (snd (findSymbolsRecursive items symbolType namePattern limit symbols depth))))"
  and "snd (findSymbolsLoop items symbolType namePattern limit symbols depth)
        = symbols @ take (nat (limit - int (length symbols))) (concat (map (itemMatches (symbolFilter symbolType namePattern) depth) items))
      \<and> (fst (findSymbolsLoop items symbolType namePattern limit symbols depth)
           \<longrightarrow> limit \<le> int (length (snd (findSymbolsLoop items symbolType namePattern limit symbols depth))))"
proof (induction items symbolType namePattern limit symbols depth
    and items symbolType namePattern limit symbols depth
    rule: findSymbolsRecursive_findSymbolsLoop.induct)
  case (1 items symbolType namePattern limit symbols depth)
  show ?case
  proof (cases "depth > 6")
    case True
    then show ?thesis by (simp add: allMatches_unfold [of _ depth])
  next
    case False
    have eq: "findSymbolsRecursive items symbolType namePattern limit symbols depth
        = findSymbolsLoop items symbolType namePattern limit symbols depth"
      using False by simp
    have eq2: "allMatches (symbolFilter symbolType namePattern) depth items
        = concat (map (itemMatches (symbolFilter symbolType namePattern) depth) items)"
      using False by (simp add: allMatches_unfold [of _ depth])
    show ?thesis unfolding eq eq2 using "1.IH" [OF False] by blast
  qed
next
  case (2 symbolType namePattern limit symbols depth)
  show ?case by simp
next
  case (3 item rest symbolType namePattern limit symbols depth)
  let ?P = "symbolFilter symbolType namePattern"
  let ?m = "if ?P item then [item] else []"
  let ?R = "concat (map (itemMatches ?P depth) rest)"
  let ?k = "nat (limit - int (length symbols))"
  show ?case
  proof (cases "limit \<le> int (length symbols)")
    case True
    then show ?thesis by simp
  next
    case lim: False
    have s1: "(if (symbolType = ''all'' \<or> item_type item = symbolType)
              \<and> (case namePattern of
                    None \<Rightarrow> True
                  | Some pattern \<Rightarrow> pattern = [] \<or> matchesPattern (item_title item) pattern)
           then symbols @ [item] else symbols) = symbols @ ?m"
      by (simp add: symbolFilter_def)
    have m1: "length ?m \<le> 1" by simp
    show ?thesis
    proof (cases "item_children item")
      case None
      have im: "itemMatches ?P depth item = ?m" by (simp add: itemMatches_def None)
      note IH = "3.IH"(1) [OF lim refl None, unfolded s1]
      have step: "findSymbolsLoop (item # rest) symbolType namePattern limit symbols depth
          = findSymbolsLoop rest symbolType namePattern limit (symbols @ ?m) depth"
        using lim None by (simp only: findSymbolsLoop_Cons if_False option.case)
      have E: "(symbols @ ?m) @ take (nat (limit - int (length (symbols @ ?m)))) ?R
          = symbols @ take ?k (concat (map (itemMatches ?P depth) (item # rest)))"
        using take_step_none [OF lim m1, of ?R] im by simp
      show ?thesis
        unfolding step using IH [unfolded E] by blast
    next
      case (Some children)
      let ?C = "allMatches ?P (depth + 1) children"
      have im: "itemMatches ?P depth item = ?m @ ?C" by (simp add: itemMatches_def Some)
      show ?thesis
      proof (cases "int (length (symbols @ ?m)) < limit")
        case room: True
        obtain b res where rec: "findSymbolsRecursive children symbolType namePattern limit (symbols @ ?m) (depth + 1) = (b, res)"
          by (cases "findSymbolsRecursive children symbolType namePattern limit (symbols @ ?m) (depth + 1)")
        note IH2 = "3.IH"(2) [OF lim refl Some, unfolded s1, OF room, unfolded rec fst_conv snd_conv]
        define pre where "pre = take (nat (limit - int (length (symbols @ ?m)))) ?C"
        have res: "res = (symbols @ ?m) @ pre" using IH2 by (simp add: pre_def)
        show ?thesis
        proof (cases b)
          case True
          have step: "findSymbolsLoop (item # rest) symbolType namePattern limit symbols depth = (True, res)"
            using lim Some room rec True by (simp only: findSymbolsLoop_Cons if_False if_True option.case prod.case bool.case)
          have fullres: "limit \<le> int (length res)" using IH2 True by blast
          have full: "limit \<le> int (length ((symbols @ ?m) @ pre))" using fullres unfolding res .
          have "take (nat (limit - int (length (symbols @ ?m)))) (?C @ ?R) = pre"
            using full pre_def by (rule take_step_full)
          then have "(symbols @ ?m) @ pre = (symbols @ ?m) @ take (nat (limit - int (length (symbols @ ?m)))) (?C @ ?R)"
            by simp
          also have "\<dots> = symbols @ take ?k (?m @ ?C @ ?R)"
            using take_step_none [OF lim m1, of "?C @ ?R"] by simp
          finally have "res = symbols @ take ?k (concat (map (itemMatches ?P depth) (item # rest)))"
            using res im by simp
          moreover note fullres
          ultimately show ?thesis unfolding step fst_conv snd_conv by blast
        next
          case False
          have step: "findSymbolsLoop (item # rest) symbolType namePattern limit symbols depth
              = findSymbolsLoop rest symbolType namePattern limit res depth"
            using lim Some room rec False by (simp only: findSymbolsLoop_Cons if_False if_True option.case prod.case bool.case)
          have bF: "b = False" using False by simp
          note IH3 = "3.IH"(3) [OF lim refl Some, unfolded s1, OF room rec [symmetric] bF]
          have "res @ take (nat (limit - int (length res))) ?R
              = (symbols @ ?m) @ take (nat (limit - int (length (symbols @ ?m)))) (?C @ ?R)"
            unfolding res using pre_def by (rule take_step_more)
          also have "\<dots> = symbols @ take ?k (?m @ ?C @ ?R)"
            using take_step_none [OF lim m1, of "?C @ ?R"] by simp
          finally have E: "res @ take (nat (limit - int (length res))) ?R
              = symbols @ take ?k (concat (map (itemMatches ?P depth) (item # rest)))"
            using im by simp
          show ?thesis unfolding step using IH3 [unfolded E] by blast
        qed
      next
        case noroom: False
        have step: "findSymbolsLoop (item # rest) symbolType namePattern limit symbols depth
            = findSymbolsLoop rest symbolType namePattern limit (symbols @ ?m) depth"
          using lim Some noroom by (simp only: findSymbolsLoop_Cons if_False option.case)
        note IH4 = "3.IH"(4) [OF lim refl Some, unfolded s1, OF noroom]
        have k: "nat (limit - int (length (symbols @ ?m))) = 0" using noroom by simp
        have "length ?m = ?k" using lim noroom m1 by (simp split: if_splits)
        then have "take ?k (?m @ ?C @ ?R) = ?m" by simp
        then have E: "(symbols @ ?m) @ take (nat (limit - int (length (symbols @ ?m)))) ?R
            = symbols @ take ?k (concat (map (itemMatches ?P depth) (item # rest)))"
          using im k by simp
        show ?thesis unfolding step using IH4 [unfolded E] by blast
      qed
    qed
  qed
qed

text \<open>
  With a limit that the matches do not reach, the walk of the source collects exactly
  \<open>allMatches\<close>: this is the traversal without short-circuit.
\<close>

lemma findSymbolsRecursive_exhaustive:
  assumes "int (length (allMatches (symbolFilter symbolType namePattern) 0 items)) \<le> limit"
  shows "snd (findSymbolsRecursive items symbolType namePattern limit [] 0)
       = allMatches (symbolFilter symbolType namePattern) 0 items"
  using assms find_general(1) [of items symbolType namePattern limit "[]" 0] by simp

text \<open>
  Claim C6. For every tree, type filter, name pattern and limit, the symbols that the
  short-circuiting walk collects are the first \<open>limit\<close> matches of the traversal without
  a limit, in document order.
\<close>

theorem findSymbolsRecursive_truncates:
  "snd (findSymbolsRecursive items symbolType namePattern limit [] 0)
     = take (nat limit) (allMatches (symbolFilter symbolType namePattern) 0 items)"
  using find_general(1) [of items symbolType namePattern limit "[]" 0] by simp

lemma findSymbolsRecursive_example:
  "snd (findSymbolsRecursive exampleIndex ''all'' None 2 [] 0)
     = [exampleIndex ! 0,
        IndexItem ''/documentation/swiftui/a'' ''A'' ''class'' None None None None]
   \<and> allMatches (symbolFilter ''all'' None) 0 exampleIndex
       = [exampleIndex ! 0,
          IndexItem ''/documentation/swiftui/a'' ''A'' ''class'' None None None None,
          IndexItem ''/documentation/swiftui/b'' ''B'' ''struct'' None None None None,
          exampleIndex ! 1]"
  by (simp add: exampleIndex_def allMatches.simps symbolFilter_def)

section \<open>Grouping nodes\<close>

lemma fromSampleNode_Cons:
  "fromSampleNode rest r \<Longrightarrow> fromSampleNode (node # rest) r"
  "node_children node = Some children \<Longrightarrow> fromSampleNode children r \<Longrightarrow> fromSampleNode (node # rest) r"
  by (auto simp: fromSampleNode_def)

lemma process_provenance:
  "\<exists>new. processSampleCodeNodes nf nodes sampleCodes fm fi cf d = sampleCodes @ new
        \<and> list_all (fromSampleNode nodes) new"
proof (induction nf nodes sampleCodes fm fi cf d rule: processSampleCodeNodes.induct)
  case (1 nf sampleCodes fm fi cf d)
  show ?case by simp
next
  case (2 nf node rest sampleCodes fm fi cf d)
  define sampleCodes1 where "sampleCodes1 =
        (if node_type node = ''groupMarker'' then
           (let fw = nf (node_title node)
            in case node_children node of
                 None \<Rightarrow> sampleCodes
               | Some children \<Rightarrow>
                   processSampleCodeNodes nf children sampleCodes fm fi fw (d + 1))
         else if node_type node = ''sampleCode'' \<and> truthy (node_path node) then
           (case node_path node of
              None \<Rightarrow> sampleCodes
            | Some p \<Rightarrow>
                (let fwFromPath = extractFrameworkFromPath nf p;
                     docUrl = ''doc://com.apple.documentation'' @ p;
                     fwFromMap = fm docUrl;
                     fw = nf
                            (case orElse fwFromPath fwFromMap of
                               None \<Rightarrow> cf
                             | Some s \<Rightarrow> if s \<noteq> [] then s else cf)
                 in sampleCodes @
                    [\<lparr>sample_title = node_title node,
                      sample_framework = (if fw \<noteq> [] then Some fw else None),
                      sample_description = None,
                      sample_beta = (node_beta node = Some True),
                      sample_featured = (docUrl \<in> fi),
                      sample_url = ''https://developer.apple.com'' @ p,
                      sample_path = p,
                      sample_depth = d\<rparr>]))
         else
           (case node_children node of
              None \<Rightarrow> sampleCodes
            | Some children \<Rightarrow>
                processSampleCodeNodes nf children sampleCodes fm fi cf (d + 1)))"
  have step: "processSampleCodeNodes nf (node # rest) sampleCodes fm fi cf d
      = processSampleCodeNodes nf rest sampleCodes1 fm fi cf d"
    by (simp add: sampleCodes1_def Let_def)
  have first: "\<exists>new1. sampleCodes1 = sampleCodes @ new1 \<and> list_all (fromSampleNode (node # rest)) new1"
  proof (cases "node_type node = ''groupMarker''")
    case True
    show ?thesis
    proof (cases "node_children node")
      case None
      then show ?thesis using True by (simp add: sampleCodes1_def)
    next
      case (Some children)
      from "2.IH"(1) [OF True refl Some]
      obtain new1 where "processSampleCodeNodes nf children sampleCodes fm fi (nf (node_title node)) (d + 1) = sampleCodes @ new1"
        and "list_all (fromSampleNode children) new1" by blast
      then show ?thesis using True Some
        by (auto simp: sampleCodes1_def list_all_iff intro: fromSampleNode_Cons(2))
    qed
  next
    case notGroup: False
    show ?thesis
    proof (cases "node_type node = ''sampleCode'' \<and> truthy (node_path node)")
      case True
      then obtain p where p: "node_path node = Some p" by (auto simp: truthy_def split: option.splits)
      show ?thesis using notGroup True p
        by (simp add: sampleCodes1_def Let_def fromSampleNode_def)
    next
      case False
      show ?thesis
      proof (cases "node_children node")
        case None
        then show ?thesis using notGroup False by (auto simp: sampleCodes1_def)
      next
        case (Some children)
        from "2.IH"(2) [OF notGroup False Some]
        obtain new1 where "processSampleCodeNodes nf children sampleCodes fm fi cf (d + 1) = sampleCodes @ new1"
          and "list_all (fromSampleNode children) new1" by blast
        then show ?thesis using notGroup False Some
          by (auto simp: sampleCodes1_def list_all_iff intro: fromSampleNode_Cons(2))
      qed
    qed
  qed
  then obtain new1 where n1: "sampleCodes1 = sampleCodes @ new1" "list_all (fromSampleNode (node # rest)) new1"
    by blast
  from "2.IH"(3) [OF sampleCodes1_def [symmetric, THEN sym]]
  obtain new2 where n2: "processSampleCodeNodes nf rest sampleCodes1 fm fi cf d = sampleCodes1 @ new2"
     "list_all (fromSampleNode rest) new2" unfolding sampleCodes1_def [symmetric] by blast
  have "list_all (fromSampleNode (node # rest)) new2"
    using n2(2) by (auto simp: list_all_iff intro: fromSampleNode_Cons(1))
  then have "processSampleCodeNodes nf (node # rest) sampleCodes fm fi cf d = sampleCodes @ (new1 @ new2)
      \<and> list_all (fromSampleNode (node # rest)) (new1 @ new2)"
    using step n1 n2 by simp
  then show ?case by blast
qed

lemma allMatches_filter: "x \<in> set (allMatches P depth items) \<Longrightarrow> P x"
proof (induction P depth items arbitrary: x rule: allMatches.induct)
  case (1 P depth items)
  from "1.prems" obtain item where "\<not> depth > 6" "item \<in> set items" "x \<in> set (itemMatches P depth item)"
    by (auto simp: allMatches_unfold [of P depth items] split: if_splits)
  note h = this
  show ?case
  proof (cases "item_children item")
    case None
    then show ?thesis using h by (auto simp: itemMatches_def split: if_splits)
  next
    case (Some children)
    then have "x = item \<and> P item \<or> x \<in> set (allMatches P (depth + 1) children)"
      using h by (auto simp: itemMatches_def split: if_splits)
    then show ?thesis using "1.IH" [OF h(1) h(2) Some] by blast
  qed
qed

text \<open>
  Claim C1, as stated, fails for \<open>findSymbolsRecursive\<close> with the filter \<open>all\<close>: the
  grouping node itself is pushed, before its children.
\<close>

theorem findSymbolsRecursive_groupMarker_counterexample:
  "snd (findSymbolsRecursive
          [IndexItem [] ''Classes'' ''groupMarker'' None None None
             (Some [IndexItem ''/documentation/swiftui/a'' ''A'' ''class'' None None None None])]
          ''all'' None 50 [] 0)
     = [IndexItem [] ''Classes'' ''groupMarker'' None None None
          (Some [IndexItem ''/documentation/swiftui/a'' ''A'' ''class'' None None None None]),
        IndexItem ''/documentation/swiftui/a'' ''A'' ''class'' None None None None]"
  by simp

text \<open>
  Claim C1, amended. \<open>findSymbolsRecursive\<close> pushes only items that pass its filter, so
  it pushes no grouping node when the type filter is neither \<open>all\<close> nor
  \<open>groupMarker\<close>. \<open>processSampleCodeNodes\<close> pushes only records of nodes of type
  \<open>sampleCode\<close>, never one of a grouping node; a grouping node passes its normalized
  title to the walk of its children as the current framework.
\<close>

theorem walks_and_grouping_nodes:
  "(\<exists>new. snd (findSymbolsRecursive items symbolType namePattern limit symbols depth)
            = symbols @ new
        \<and> list_all (symbolFilter symbolType namePattern) new
        \<and> (symbolType \<noteq> ''all'' \<and> symbolType \<noteq> ''groupMarker'' \<longrightarrow>
             list_all (\<lambda>item. item_type item \<noteq> ''groupMarker'') new))
   \<and> (\<exists>new. processSampleCodeNodes nf nodes sampleCodes fm fi cf d = sampleCodes @ new
        \<and> list_all (fromSampleNode nodes) new)
   \<and> (node_type node = ''groupMarker'' \<and> node_children node = Some children \<longrightarrow>
        processSampleCodeNodes nf (node # rest) sampleCodes fm fi cf d
          = processSampleCodeNodes nf rest
              (processSampleCodeNodes nf children sampleCodes fm fi (nf (node_title node)) (d + 1))
              fm fi cf d)"
proof (intro conjI)
  define new where "new = take (nat (limit - int (length symbols)))
      (allMatches (symbolFilter symbolType namePattern) depth items)"
  have res: "snd (findSymbolsRecursive items symbolType namePattern limit symbols depth)
      = symbols @ new"
    using find_general(1) [of items symbolType namePattern limit symbols depth]
    by (simp add: new_def)
  have pass: "list_all (symbolFilter symbolType namePattern) new"
    unfolding new_def list_all_iff using allMatches_filter in_set_takeD by fast
  have "list_all (\<lambda>item. item_type item \<noteq> ''groupMarker'') new"
    if "symbolType \<noteq> ''all'' \<and> symbolType \<noteq> ''groupMarker''"
    using pass that by (auto simp: list_all_iff symbolFilter_def)
  then show "\<exists>new. snd (findSymbolsRecursive items symbolType namePattern limit symbols depth)
            = symbols @ new
        \<and> list_all (symbolFilter symbolType namePattern) new
        \<and> (symbolType \<noteq> ''all'' \<and> symbolType \<noteq> ''groupMarker'' \<longrightarrow>
             list_all (\<lambda>item. item_type item \<noteq> ''groupMarker'') new)"
    using res pass by blast
next
  show "\<exists>new. processSampleCodeNodes nf nodes sampleCodes fm fi cf d = sampleCodes @ new
        \<and> list_all (fromSampleNode nodes) new"
    by (rule process_provenance)
next
  show "node_type node = ''groupMarker'' \<and> node_children node = Some children \<longrightarrow>
        processSampleCodeNodes nf (node # rest) sampleCodes fm fi cf d
          = processSampleCodeNodes nf rest
              (processSampleCodeNodes nf children sampleCodes fm fi (nf (node_title node)) (d + 1))
              fm fi cf d"
    by (simp add: Let_def)
qed

theorem walks_and_grouping_nodes_witness:
  "''class'' \<noteq> ''all'' \<and> ''class'' \<noteq> ''groupMarker''
   \<and> (\<exists>new. snd (findSymbolsRecursive exampleIndex ''class'' None 50 [] 0) = new
         \<and> list_all (\<lambda>item. item_type item \<noteq> ''groupMarker'') new)
   \<and> snd (findSymbolsRecursive exampleIndex ''class'' None 50 [] 0)
       = [IndexItem ''/documentation/swiftui/a'' ''A'' ''class'' None None None None,
          IndexItem ''/documentation/swiftui/c'' ''C'' ''class'' None None None None]
   \<and> (\<exists>new. processSampleCodeNodes id exampleSampleIndex [] Map.empty {} [] 0 = new
         \<and> list_all (fromSampleNode exampleSampleIndex) new)
   \<and> processSampleCodeNodes id exampleSampleIndex [] Map.empty {} [] 0
       = processSampleCodeNodes id
           [SampleCodeIndexNode (Some ''/documentation/swiftui/a'') ''A'' ''sampleCode''
              None None None,
            SampleCodeIndexNode (Some ''/documentation/b'') ''B'' ''sampleCode''
              None None (Some True)]
           [] Map.empty {} ''SwiftUI'' 1
   \<and> map sample_title (processSampleCodeNodes id exampleSampleIndex [] Map.empty {} [] 0)
       = [''A'', ''B'']"
proof -
  note w = walks_and_grouping_nodes
    [where items = exampleIndex and symbolType = "''class''" and namePattern = None
       and limit = 50 and symbols = "[]" and depth = 0
       and nf = id and nodes = exampleSampleIndex and sampleCodes = "[]"
       and fm = Map.empty and fi = "{}" and cf = "[]" and d = 0
       and node = "SampleCodeIndexNode None ''SwiftUI'' ''groupMarker''
          (Some [SampleCodeIndexNode (Some ''/documentation/swiftui/a'') ''A'' ''sampleCode''
                   None None None,
                 SampleCodeIndexNode (Some ''/documentation/b'') ''B'' ''sampleCode''
                   None None (Some True)])
          None None"
       and children = "[SampleCodeIndexNode (Some ''/documentation/swiftui/a'') ''A'' ''sampleCode''
                   None None None,
                 SampleCodeIndexNode (Some ''/documentation/b'') ''B'' ''sampleCode''
                   None None (Some True)]"
       and rest = "[]"]
  have h: "''class'' \<noteq> ''all'' \<and> ''class'' \<noteq> ''groupMarker''" by simp
  have 1: "\<exists>new. snd (findSymbolsRecursive exampleIndex ''class'' None 50 [] 0) = new
         \<and> list_all (\<lambda>item. item_type item \<noteq> ''groupMarker'') new"
    using w h by auto
  have 2: "\<exists>new. processSampleCodeNodes id exampleSampleIndex [] Map.empty {} [] 0 = new
         \<and> list_all (fromSampleNode exampleSampleIndex) new"
    using w by auto
  have 3: "processSampleCodeNodes id exampleSampleIndex [] Map.empty {} [] 0
       = processSampleCodeNodes id
           [SampleCodeIndexNode (Some ''/documentation/swiftui/a'') ''A'' ''sampleCode''
              None None None,
            SampleCodeIndexNode (Some ''/documentation/b'') ''B'' ''sampleCode''
              None None (Some True)]
           [] Map.empty {} ''SwiftUI'' 1"
    using w by (simp add: exampleSampleIndex_def)
  have 4: "snd (findSymbolsRecursive exampleIndex ''class'' None 50 [] 0)
       = [IndexItem ''/documentation/swiftui/a'' ''A'' ''class'' None None None None,
          IndexItem ''/documentation/swiftui/c'' ''C'' ''class'' None None None None]"
    by (simp add: exampleIndex_def)
  have 5: "map sample_title (processSampleCodeNodes id exampleSampleIndex [] Map.empty {} [] 0)
       = [''A'', ''B'']"
    by (simp add: exampleSampleIndex_def extractFrameworkFromPath_def orElse_def truthy_def Let_def)
  show ?thesis using h 1 2 3 4 5 by blast
qed

section \<open>Fetching with retries: properties\<close>








lemma not_found_includes_404: "str_includes (''Not found (404): '' @ url) ''404''"
  by simp






text \<open>
  The test for a terminal failure is \<open>lastError.message.includes('404')\<close>, and the
  messages of the status errors end with the URL: a server error on a URL that contains
  \<open>404\<close> is not retried either.
\<close>

lemma fetchWithRetry_404_in_url:
  "fetchWithRetry ''https://developer.apple.com/tutorials/data/documentation/http404.json'' 3
       failTwiceThenOk
     = (Inl ''Server error (500): https://developer.apple.com/tutorials/data/documentation/http404.json'', 1)"
  by (simp add: fetchWithRetry_def fetchLoop.simps tryFetch_def failTwiceThenOk_def
      showNat.simps digitChar_def)




section \<open>The feature modules: properties\<close>

lemma tryCatch_Inl: "body w = (Inl e, w') \<Longrightarrow> tryCatch body handler w = (handler e, w')"
  by (simp add: tryCatch_def)

lemma tryCatch_Inr: "body w = (Inr a, w') \<Longrightarrow> tryCatch body handler w = (Inr a, w')"
  by (simp add: tryCatch_def)


lemma tryCatch_Unprintable:
  "body w = (Inl (Unprintable t), w') \<Longrightarrow> tryCatch body (catchBlock h) w = (Inl t, w')"
  by (simp add: tryCatch_def catchBlock_def)








lemma bindE_Inl: "m w = (Inl e, w') \<Longrightarrow> bindE m f w = (Inl e, w')"
  by (simp add: bindE_def)

lemma bindE_Inr: "m w = (Inr a, w') \<Longrightarrow> bindE m f w = f a w'"
  by (simp add: bindE_def)

lemma asValue_Inl: "m w = (Inl e, w') \<Longrightarrow> asValue m w = (Inl e, w')"
  by (simp add: asValue_def)





lemma cached_module_raises:
  assumes "fst (cacheGet key w) = None" and "m (snd (cacheGet key w)) = (Inl (Unprintable t), w')"
  shows "tryCatch (cacheGetOrSet key (asValue m) ttl) (catchBlock (\<lambda>error. Some (h error))) w
       = (Inl t, w')"
proof -
  have "cacheGetOrSet key (asValue m) ttl w = (Inl (Unprintable t), w')"
    using cacheGetOrSet_miss [OF assms(1), of "asValue m" ttl]
      asValue_Inl [of m "snd (cacheGet key w)" "Unprintable t" w'] assms(2)
    by simp
  then show ?thesis by (rule tryCatch_Unprintable)
qed

lemma promiseAll2_first_fails:
  "p w = (Inl e, w1) \<Longrightarrow> q w1 = (Inr b, w2) \<Longrightarrow> promiseAll2 p q f w = (Inl e, w2)"
  by (simp add: promiseAll2_def)

lemma promiseAll2_second_fails:
  "p w = (Inr a, w1) \<Longrightarrow> q w1 = (Inl e, w2) \<Longrightarrow> promiseAll2 p q f w = (Inl e, w2)"
  by (simp add: promiseAll2_def)

lemma promiseAll2_both:
  "p w = (Inr a, w1) \<Longrightarrow> q w1 = (Inr b, w2) \<Longrightarrow> promiseAll2 p q f w = (Inr (a, b), w2)"
  by (simp add: promiseAll2_def)





















text \<open>
  \<open>getAppleDocContent\<close>: what it does after a fetch that answered, by the reference
  that it follows.
\<close>

lemma follow_or_render:
  "(if \<not> doc_primaryContentSections data
       \<and> (case doc_references data of None \<Rightarrow> False | Some refs \<Rightarrow> refs \<noteq> [])
       \<and> 0 < maxDepth
    then
      (case doc_references data of
         None \<Rightarrow> render
       | Some refs \<Rightarrow>
           (case refs of
              [] \<Rightarrow> render
            | firstRef # _ \<Rightarrow>
                (case firstRef of
                   None \<Rightarrow> render
                 | Some refUrl \<Rightarrow>
                     if refUrl = [] then render
                     else
                       (case convertToJsonApiUrl parseUrl
                               (if prefix ''http'' refUrl then refUrl
                                else ''https://developer.apple.com'' @ refUrl) of
                          None \<Rightarrow> render
                        | Some refJsonUrl \<Rightarrow>
                            if refJsonUrl = [] then render else follow refJsonUrl))))
    else render)
   = (case redirectTarget parseUrl data maxDepth of None \<Rightarrow> render | Some r \<Rightarrow> follow r)"
  by (simp add: redirectTarget_def split: option.splits list.splits)

lemma getAppleDocContent_unfold:
  assumes "str_includes url ''developer.apple.com''"
    and "(if str_includes url ''.json'' then Some url else convertToJsonApiUrl parseUrl url)
         = Some jsonApiUrl"
    and "jsonApiUrl \<noteq> []"
    and "key = makeCacheKey localeCompare ''doc''
                        [(''url'', JString jsonApiUrl),
                         (''related'', optBool (opt_related options)),
                         (''references'', optBool (opt_references options)),
                         (''similar'', optBool (opt_similar options)),
                         (''platform'', optBool (opt_platform options))]"
    and "\<not> truthy (fst (cacheGet key w))"
    and "fetchJson jsonApiUrl (snd (cacheGet key w)) = (Inr data, w')"
  shows "getAppleDocContent localeCompare parseUrl fetchJson formatDoc url options maxDepth w
       = (case redirectTarget parseUrl data maxDepth of
            None \<Rightarrow>
              (case formatDoc data options of
                 Inl t \<Rightarrow> (catchBlock (\<lambda>error. docErrorText url error) t, w')
               | Inr formatted \<Rightarrow>
                   (Inr (formatted @ ''---'' @ [newline, newline]
                          @ ''[View full documentation on Apple Developer]('' @ url @ '')''),
                    cacheSet key (Some (formatted @ ''---'' @ [newline, newline]
                          @ ''[View full documentation on Apple Developer]('' @ url @ '')''))
                      (30 * 60 * 1000) w'))
          | Some refJsonUrl \<Rightarrow>
              getAppleDocContent localeCompare parseUrl fetchJson formatDoc refJsonUrl options
                (maxDepth - 1) w')"
proof -
  obtain cached w1 where c: "cacheGet key w = (cached, w1)" by (cases "cacheGet key w")
  show ?thesis
    apply (subst getAppleDocContent.simps)
    apply (simp only: Let_def follow_or_render)
    using assms c
    apply (simp add: asyncReturn_def tryCatch_def bindE_def liftState_def pureE_def unawaited_def catchBlock_def
        split: option.splits sum.splits prod.splits thrown.splits del: str_includes.simps)
    done
qed

lemma getAppleDocContent_early:
  assumes "\<not> str_includes url ''developer.apple.com''
     \<or> (if str_includes url ''.json'' then Some url else convertToJsonApiUrl parseUrl url) = None
     \<or> (if str_includes url ''.json'' then Some url else convertToJsonApiUrl parseUrl url) = Some []"
  shows "\<exists>s. getAppleDocContent localeCompare parseUrl fetchJson formatDoc url options maxDepth w
           = (Inr s, w)"
  using assms
  by (subst getAppleDocContent.simps)
     (auto simp: asyncReturn_def tryCatch_def pureE_def simp del: str_includes.simps)

lemma getAppleDocContent_rejects:
  assumes "\<not> str_includes url ''developer.apple.com''
     \<or> (\<not> str_includes url ''.json'' \<and> convertToJsonApiUrl parseUrl url = None)"
  shows "\<exists>s. getAppleDocContent localeCompare parseUrl fetchJson formatDoc url options maxDepth w
           = (Inr s, w)"
  using assms by (intro getAppleDocContent_early) auto

lemma convertToJsonApiUrl_rejects:
  assumes "parseUrl (if suffix ''/'' webUrl then butlast webUrl else webUrl) = None
     \<or> (\<exists>h p. parseUrl (if suffix ''/'' webUrl then butlast webUrl else webUrl) = Some (h, p)
            \<and> h \<noteq> ''developer.apple.com'')"
  shows "convertToJsonApiUrl parseUrl webUrl = None"
  using assms by (auto simp: convertToJsonApiUrl_def Let_def)


lemma getAppleDocContent_fetch_throws:
  assumes "str_includes url ''developer.apple.com''"
    and "(if str_includes url ''.json'' then Some url else convertToJsonApiUrl parseUrl url)
         = Some jsonApiUrl"
    and "jsonApiUrl \<noteq> []"
    and "key = makeCacheKey localeCompare ''doc''
                        [(''url'', JString jsonApiUrl),
                         (''related'', optBool (opt_related options)),
                         (''references'', optBool (opt_references options)),
                         (''similar'', optBool (opt_similar options)),
                         (''platform'', optBool (opt_platform options))]"
    and "\<not> truthy (fst (cacheGet key w))"
    and "fetchJson jsonApiUrl (snd (cacheGet key w)) = (Inl t, w')"
  shows "getAppleDocContent localeCompare parseUrl fetchJson formatDoc url options maxDepth w
       = (catchBlock (\<lambda>error. docErrorText url error) t, w')"
proof -
  obtain cached w1 where c: "cacheGet key w = (cached, w1)" by (cases "cacheGet key w")
  show ?thesis
    using assms c
    by (subst getAppleDocContent.simps)
       (simp add: Let_def asyncReturn_def tryCatch_def bindE_def liftState_def pureE_def
          catchBlock_def split: thrown.splits del: str_includes.simps)
qed

lemma getAppleDocContent_fetch_fails:
  assumes "str_includes url ''developer.apple.com''"
    and "(if str_includes url ''.json'' then Some url else convertToJsonApiUrl parseUrl url)
         = Some jsonApiUrl"
    and "jsonApiUrl \<noteq> []"
    and "key = makeCacheKey localeCompare ''doc''
                        [(''url'', JString jsonApiUrl),
                         (''related'', optBool (opt_related options)),
                         (''references'', optBool (opt_references options)),
                         (''similar'', optBool (opt_similar options)),
                         (''platform'', optBool (opt_platform options))]"
    and "\<not> truthy (fst (cacheGet key w))"
    and "fetchJson jsonApiUrl (snd (cacheGet key w)) = (Inl (Thrown e), w')"
  shows "getAppleDocContent localeCompare parseUrl fetchJson formatDoc url options maxDepth w
       = (Inr (docErrorText url e), w')"
  using getAppleDocContent_fetch_throws
      [where url = url and parseUrl = parseUrl and jsonApiUrl = jsonApiUrl and key = key
         and localeCompare = localeCompare and options = options and w = w
         and fetchJson = fetchJson and t = "Thrown e" and w' = w' and formatDoc = formatDoc
         and maxDepth = maxDepth, OF assms]
  by (simp add: catchBlock_def)


lemma getAppleDocContent_redirects:
  assumes "str_includes url ''developer.apple.com''"
    and "(if str_includes url ''.json'' then Some url else convertToJsonApiUrl parseUrl url)
         = Some jsonApiUrl"
    and "jsonApiUrl \<noteq> []"
    and "key = makeCacheKey localeCompare ''doc''
                        [(''url'', JString jsonApiUrl),
                         (''related'', optBool (opt_related options)),
                         (''references'', optBool (opt_references options)),
                         (''similar'', optBool (opt_similar options)),
                         (''platform'', optBool (opt_platform options))]"
    and "\<not> truthy (fst (cacheGet key w))"
    and "fetchJson jsonApiUrl (snd (cacheGet key w)) = (Inr data, w')"
    and "redirectTarget parseUrl data maxDepth = Some refJsonUrl"
  shows "getAppleDocContent localeCompare parseUrl fetchJson formatDoc url options maxDepth w
       = getAppleDocContent localeCompare parseUrl fetchJson formatDoc refJsonUrl options
           (maxDepth - 1) w'"
  using getAppleDocContent_unfold
      [where url = url and parseUrl = parseUrl and jsonApiUrl = jsonApiUrl and key = key
         and localeCompare = localeCompare and options = options and w = w
         and fetchJson = fetchJson and data = data and w' = w' and formatDoc = formatDoc
         and maxDepth = maxDepth, OF assms(1-6)] assms(7)
  by simp



text \<open>
  \<open>maxDepth\<close> bounds the references that one call follows. When every document refers
  to another one, a call with \<open>maxDepth\<close> \<open>n\<close> makes \<open>n + 1\<close> requests: the chain of
  requests has no bound that does not depend on \<open>maxDepth\<close>, and it is the finite
  \<open>maxDepth\<close> that ends it.
\<close>

lemma cacheGet_empty: "store w = Map.empty \<Longrightarrow> cacheGet key w = (None, w)"
  by (simp add: cacheGet_def)

lemma redirectTarget_refersToB:
  "redirectTarget (\<lambda>u. Some (''developer.apple.com'', ''/documentation/b'')) refersToB maxDepth
     = (if 0 < maxDepth then Some ''https://developer.apple.com/tutorials/data/documentation/b.json''
        else None)"
  by (simp add: redirectTarget_def convertToJsonApiUrl_def refersToB_def)

lemma getAppleDocContent_fetches_chain:
  assumes "store w = Map.empty"
  shows "length (requested (snd (getAppleDocContent localeCompare
             (\<lambda>u. Some (''developer.apple.com'', ''/documentation/b''))
             (logged (answersWith refersToB)) (\<lambda>data options. Inr [])
             ''https://developer.apple.com/tutorials/data/documentation/b.json''
             options maxDepth w)))
       = length (requested w) + maxDepth + 1"
  using assms
proof (induction maxDepth arbitrary: w)
  case 0
  let ?url = "''https://developer.apple.com/tutorials/data/documentation/b.json''"
  have inc: "str_includes ?url ''developer.apple.com''" "str_includes ?url ''.json''"
    by simp_all
  define w' where "w' = \<lparr>store = store w, now = now w, ext = (fst (ext w) @ [?url], snd (ext w))\<rparr>"
  have f: "logged (answersWith refersToB) ?url w = (Inr refersToB, w')"
    by (simp add: logged_def answersWith_def w'_def)
  have "getAppleDocContent localeCompare
             (\<lambda>u. Some (''developer.apple.com'', ''/documentation/b''))
             (logged (answersWith refersToB)) (\<lambda>data options. Inr []) ?url options 0 w
      = (Inr (''---'' @ [newline, newline]
               @ ''[View full documentation on Apple Developer]('' @ ?url @ '')''),
         cacheSet (makeCacheKey localeCompare ''doc''
                        [(''url'', JString ?url),
                         (''related'', optBool (opt_related options)),
                         (''references'', optBool (opt_references options)),
                         (''similar'', optBool (opt_similar options)),
                         (''platform'', optBool (opt_platform options))])
           (Some (''---'' @ [newline, newline]
               @ ''[View full documentation on Apple Developer]('' @ ?url @ '')''))
           (30 * 60 * 1000) w')"
    using getAppleDocContent_unfold
      [where url = ?url and jsonApiUrl = ?url and localeCompare = localeCompare
         and parseUrl = "\<lambda>u. Some (''developer.apple.com'', ''/documentation/b'')"
         and fetchJson = "logged (answersWith refersToB)" and data = refersToB and w = w
         and w' = w' and options = options and formatDoc = "\<lambda>data options. Inr []"
         and maxDepth = 0, OF inc(1) _ _ refl]
      f 0
    by (simp add: inc cacheGet_empty truthy_def redirectTarget_refersToB del: str_includes.simps)
  then show ?case
    by (simp add: requested_def cacheSet_def w'_def)
next
  case (Suc n)
  let ?url = "''https://developer.apple.com/tutorials/data/documentation/b.json''"
  have inc: "str_includes ?url ''developer.apple.com''" "str_includes ?url ''.json''"
    by simp_all
  define w' where "w' = \<lparr>store = store w, now = now w, ext = (fst (ext w) @ [?url], snd (ext w))\<rparr>"
  have f: "logged (answersWith refersToB) ?url w = (Inr refersToB, w')"
    by (simp add: logged_def answersWith_def w'_def)
  have "getAppleDocContent localeCompare
             (\<lambda>u. Some (''developer.apple.com'', ''/documentation/b''))
             (logged (answersWith refersToB)) (\<lambda>data options. Inr []) ?url options (Suc n) w
      = getAppleDocContent localeCompare
             (\<lambda>u. Some (''developer.apple.com'', ''/documentation/b''))
             (logged (answersWith refersToB)) (\<lambda>data options. Inr []) ?url options n w'"
    using getAppleDocContent_redirects
      [where url = ?url and jsonApiUrl = ?url and localeCompare = localeCompare
         and parseUrl = "\<lambda>u. Some (''developer.apple.com'', ''/documentation/b'')"
         and fetchJson = "logged (answersWith refersToB)" and data = refersToB and w = w
         and w' = w' and options = options and formatDoc = "\<lambda>data options. Inr []"
         and maxDepth = "Suc n" and refJsonUrl = ?url, OF inc(1) _ _ refl]
      f Suc.prems
    by (simp add: inc cacheGet_empty truthy_def redirectTarget_refersToB del: str_includes.simps)
  moreover have "store w' = Map.empty"
    using Suc.prems by (simp add: w'_def)
  moreover have "length (requested w') = length (requested w) + 1"
    by (simp add: requested_def w'_def)
  ultimately show ?case
    using Suc.IH [of w'] by simp
qed

lemma cacheGet_fresh: "cacheGet key freshProcess = (None, freshProcess)"
  by (simp add: cacheGet_def freshProcess_def)

lemma logged_networkDown:
  "logged networkDown url freshProcess
     = (Inl (Thrown (JsError ''Unable to connect'')),
        \<lparr>store = Map.empty, now = 0, ext = ([url], ())\<rparr>)"
  by (simp add: logged_def networkDown_def freshProcess_def)

text \<open>
  Claim C9. The claim asks that a URL whose host is not \<open>developer.apple.com\<close> is
  rejected before any network call. The code tests \<open>url.includes('developer.apple.com')\<close>
  and takes a URL that contains \<open>.json\<close> as it is: on the URL below, whose host is
  \<open>example.com\<close>, with an empty cache, it calls \<open>fetchJson\<close> on that URL, whatever
  \<open>new URL\<close> makes of it.
\<close>

theorem getAppleDocContent_fetches_foreign_host:
  "getAppleDocContent localeCompare parseUrl (logged networkDown) formatDoc
       ''https://example.com/developer.apple.com/x.json'' options maxDepth freshProcess
     = (Inr (docErrorText ''https://example.com/developer.apple.com/x.json''
               (JsError ''Unable to connect'')),
        \<lparr>store = Map.empty, now = 0,
         ext = ([''https://example.com/developer.apple.com/x.json''], ())\<rparr>)
   \<and> requested (snd (getAppleDocContent localeCompare parseUrl (logged networkDown) formatDoc
         ''https://example.com/developer.apple.com/x.json'' options maxDepth freshProcess))
     = [''https://example.com/developer.apple.com/x.json'']"
proof -
  let ?url = "''https://example.com/developer.apple.com/x.json''"
  have 1: "str_includes ?url ''developer.apple.com''" by simp
  have 2: "(if str_includes ?url ''.json'' then Some ?url else convertToJsonApiUrl parseUrl ?url)
      = Some ?url" by simp
  have "getAppleDocContent localeCompare parseUrl (logged networkDown) formatDoc ?url options
          maxDepth freshProcess
     = (Inr (docErrorText ?url (JsError ''Unable to connect'')),
        \<lparr>store = Map.empty, now = 0, ext = ([?url], ())\<rparr>)"
    by (rule getAppleDocContent_fetch_fails
          [where jsonApiUrl = ?url and fetchJson = "logged networkDown", OF 1 2 _ refl])
       (simp_all add: cacheGet_fresh truthy_def logged_networkDown)
  then show ?thesis by (simp add: requested_def)
qed

section \<open>The entry functions of the feature modules\<close>





end
